theory Spec2Isabelle
  imports Complex_Main "HOL-Library.Word" "HOL-Library.Finite_Map"
begin

section \<open>The Reverb service handlers (reverb/cc/reverb\_service\_impl.cc)\<close>

text \<open>
  A shallow embedding of the stream handlers of \<^verbatim>\<open>ReverbServiceImpl\<close>:
  \<^verbatim>\<open>InsertStreamInternal\<close>, \<^verbatim>\<open>SampleStreamInternal\<close> and
  \<^verbatim>\<open>InitializeConnection\<close>. A handler is a function from the requests
  the stream delivers and the state of the run to the way the handler ends and the
  state it leaves. The collaborators whose code lives in other files (the tables, the
  chunk store, the transport, the protobuf size computation) are parameters, collected
  in the record \<open>Env\<close>.
\<close>

subsection \<open>Statuses and the ways a handler ends\<close>

datatype StatusCode =
  OK | CANCELLED | UNKNOWN | INVALID_ARGUMENT | DEADLINE_EXCEEDED | NOT_FOUND
  | FAILED_PRECONDITION | INTERNAL | UNAVAILABLE

datatype Status = Status StatusCode string

definition Status_OK :: Status where
  "Status_OK = Status OK []"

fun ok :: "Status \<Rightarrow> bool" where
  "ok (Status c m) = (c = OK)"

text \<open>
  \<open>Continue\<close>: control falls through to the next statement. \<open>Return\<close>: a
  \<^verbatim>\<open>return\<close> of the handler. \<open>Abort\<close>: a failed \<^verbatim>\<open>REVERB_CHECK\<close>, which
  ends the process. \<open>OutOfFuel\<close>: the bound on the iterations of the sampling loop was
  reached (the loop of the source has no bound of its own).
\<close>

datatype outcome = Continue | Return Status | Abort string | OutOfFuel

text \<open>\<^verbatim>\<open>absl::StrCat\<close> prints an integer in decimal.\<close>

definition digit :: "nat \<Rightarrow> char" where
  "digit d = ''0123456789'' ! d"

function dec :: "nat \<Rightarrow> string" where
  "dec n = (if n < 10 then [digit n] else dec (n div 10) @ [digit (n mod 10)])"
  by pat_completeness auto
termination
  by (relation "measure id") auto

declare dec.simps [simp del]

definition dec_int :: "int \<Rightarrow> string" where
  "dec_int i = (if i < 0 then CHR ''-'' # dec (nat (- i)) else dec (nat i))"

definition TableNotFound :: "string \<Rightarrow> Status" where
  "TableNotFound name = Status NOT_FOUND (''Priority table '' @ name @ '' was not found'')"

definition Internal :: "string \<Rightarrow> Status" where
  "Internal message = Status INTERNAL message"

text \<open>
  \<^verbatim>\<open>ToGrpcStatus\<close> (support/grpc\_util) carries the code and the message of a
  collaborator's status over to the transport's status; both are the one type
  \<open>Status\<close> here.
\<close>

definition ToGrpcStatus :: "Status \<Rightarrow> Status" where
  "ToGrpcStatus s = s"

subsection \<open>Messages and table records\<close>

type_synonym Key = "64 word"

record ChunkData =
  chunk_key :: Key
  payload :: "8 word list"

text \<open>
  \<open>flat_trajectory\<close> holds the chunk keys that \<^verbatim>\<open>internal::GetChunkKeys\<close>
  (support/trajectory\_util) reads off the item's trajectory, in the order it returns
  them.
\<close>

record PrioritizedItem =
  key :: Key
  table :: string
  priority :: real
  times_sampled :: int
  flat_trajectory :: "Key list"

text \<open>\<^verbatim>\<open>Table::Item\<close>: the item and the chunks it shares.\<close>

record TableItem =
  item :: PrioritizedItem
  chunks :: "ChunkData list"

record SampledItem =
  ref :: TableItem
  sampled_priority :: real
  sampled_times_sampled :: int
  probability :: real
  table_size :: int
  rate_limited :: bool

record SampleInfo =
  info_item :: PrioritizedItem
  info_probability :: real
  info_table_size :: int
  info_rate_limited :: bool

record Entry =
  info :: "SampleInfo option"
  data :: "ChunkData list"
  end_of_sequence :: bool

record SampleStreamResponse =
  entries :: "Entry list"

datatype Duration = Milliseconds int | InfiniteDuration

record Timeout =
  milliseconds :: int

record SampleStreamRequest =
  sample_table :: string
  num_samples :: int
  flexible_batch_size :: int
  rate_limiter_timeout :: "Timeout option"

subsection \<open>Collaborators\<close>

text \<open>
  \<open>'t\<close> is a table handle (\<^verbatim>\<open>Table*\<close>), \<open>'w\<close> the state of the objects
  the handlers share with the rest of the server (the tables' contents, the chunk
  store). \<open>IsCancelled\<close> and \<open>Write\<close> give the answer of the transport to the
  \<open>n\<close>-th poll and the \<open>n\<close>-th write of the run, counted from 0.
\<close>

record ('t, 'w) Env =
  tables :: "(string, 't) fmap"
  DefaultFlexibleBatchSize :: "'t \<Rightarrow> int"
  SampleFlexibleBatch :: "'t \<Rightarrow> int \<Rightarrow> Duration \<Rightarrow> 'w \<Rightarrow> (Status \<times> SampledItem list) \<times> 'w"
  InsertOrAssign :: "'t \<Rightarrow> TableItem \<Rightarrow> 'w \<Rightarrow> Status \<times> 'w"
  ChunkStore_Insert :: "ChunkData \<Rightarrow> 'w \<Rightarrow> ChunkData option \<times> 'w"
  IsCancelled :: "nat \<Rightarrow> bool"
  Write :: "nat \<Rightarrow> bool"
  ByteSizeLong :: "Entry \<Rightarrow> nat"
  kAutoSelectValue :: int
  IsLocalhostOrInProcess :: "string \<Rightarrow> bool"
  getpid :: int

definition TableByName :: "('t, 'w) Env \<Rightarrow> string \<Rightarrow> 't option" where
  "TableByName E name = fmlookup (tables E) name"

subsection \<open>SampleStream: framing of one sampled item\<close>

definition kMaxSampleResponseSizeBytes :: nat where
  "kMaxSampleResponseSizeBytes = 40 * 1024 * 1024"

text \<open>
  The state of a SampleStream run: the shared objects, the responses the transport
  accepted (oldest first), the number of writes and of cancellation polls so far, and
  the arguments of every \<^verbatim>\<open>SampleFlexibleBatch\<close> call made (table, batch size,
  timeout), oldest first.
\<close>

record ('t, 'w) SampleRun =
  world :: 'w
  written :: "SampleStreamResponse list"
  writes :: nat
  polls :: nat
  calls :: "('t \<times> int \<times> Duration) list"

definition new_entry :: Entry where
  "new_entry = \<lparr>info = None, data = [], end_of_sequence = False\<rparr>"

definition sample_info :: "SampledItem \<Rightarrow> SampleInfo" where
  "sample_info s =
     \<lparr>info_item = (item (ref s))\<lparr>priority := sampled_priority s,
                                  times_sampled := sampled_times_sampled s\<rparr>,
      info_probability = probability s,
      info_table_size = table_size s,
      info_rate_limited = rate_limited s\<rparr>"

text \<open>
  The body of the loop over \<^verbatim>\<open>chunk_idx\<close> for the chunk \<open>c\<close> at index
  \<open>idx\<close> of \<open>n\<close>: the entry after the flag is set, the info attached to the first
  chunk and the chunk appended.
\<close>

definition add_chunk :: "SampledItem \<Rightarrow> nat \<Rightarrow> nat \<Rightarrow> ChunkData \<Rightarrow> Entry \<Rightarrow> Entry" where
  "add_chunk s n idx c entry =
     (let e1 = entry\<lparr>end_of_sequence := (idx + 1 = n)\<rparr>;
          e2 = (if idx = 0 then e1\<lparr>info := Some (sample_info s)\<rparr> else e1)
      in e2\<lparr>data := data e2 @ [c]\<rparr>)"

text \<open>
  The loop over the chunks of one sample, from index \<open>idx\<close> on; \<open>cs\<close> are the
  chunks from \<open>idx\<close> on, \<open>n\<close> is \<^verbatim>\<open>sample.ref->chunks.size()\<close>. After a
  write the borrowed chunks are released and the response is cleared, so the next
  chunk starts from a new entry.
\<close>

fun emit_chunks ::
  "('t, 'w) Env \<Rightarrow> SampledItem \<Rightarrow> nat \<Rightarrow> nat \<Rightarrow> ChunkData list \<Rightarrow> Entry \<Rightarrow>
   ('t, 'w) SampleRun \<Rightarrow> outcome \<times> ('t, 'w) SampleRun" where
  "emit_chunks E s n idx [] entry r = (Continue, r)"
| "emit_chunks E s n idx (c # cs) entry r =
     (let e = add_chunk s n idx c entry in
      if idx < n - 1 \<and> ByteSizeLong E e < kMaxSampleResponseSizeBytes
      then emit_chunks E s n (idx + 1) cs e r
      else if Write E (writes r)
      then emit_chunks E s n (idx + 1) cs new_entry
             (r\<lparr>written := written r @ [\<lparr>entries = [e]\<rparr>], writes := writes r + 1\<rparr>)
      else (Return (Internal ''Failed to write to Sample stream.''),
            r\<lparr>writes := writes r + 1\<rparr>))"

definition emit_sample ::
  "('t, 'w) Env \<Rightarrow> SampledItem \<Rightarrow> ('t, 'w) SampleRun \<Rightarrow> outcome \<times> ('t, 'w) SampleRun" where
  "emit_sample E s r = emit_chunks E s (length (chunks (ref s))) 0 (chunks (ref s)) new_entry r"

text \<open>The responses written since the run was in state \<open>r\<close>.\<close>

definition written_since :: "('t, 'w) SampleRun \<Rightarrow> ('t, 'w) SampleRun \<Rightarrow> SampleStreamResponse list" where
  "written_since r r' = drop (length (written r)) (written r')"

definition frame_chunks :: "SampleStreamResponse \<Rightarrow> ChunkData list" where
  "frame_chunks f = concat (map data (entries f))"

definition frame_size :: "('t, 'w) Env \<Rightarrow> SampleStreamResponse \<Rightarrow> nat" where
  "frame_size E f = sum_list (map (ByteSizeLong E) (entries f))"

text \<open>
  The entry as it stood before its last chunk was appended: that chunk taken off, and
  the flag as the loop had set it for a chunk that is not the last.
\<close>

definition before_last :: "Entry \<Rightarrow> Entry" where
  "before_last e = e\<lparr>data := butlast (data e), end_of_sequence := False\<rparr>"

text \<open>
  The entries the chunk loop hands to the transport when no write fails; the proofs
  about \<open>emit_chunks\<close> go through it.
\<close>

fun frames_of :: "('t, 'w) Env \<Rightarrow> SampledItem \<Rightarrow> nat \<Rightarrow> nat \<Rightarrow> ChunkData list \<Rightarrow> Entry \<Rightarrow> Entry list" where
  "frames_of E s n idx [] entry = []"
| "frames_of E s n idx (c # cs) entry =
     (let e = add_chunk s n idx c entry in
      if idx < n - 1 \<and> ByteSizeLong E e < kMaxSampleResponseSizeBytes
      then frames_of E s n (idx + 1) cs e
      else e # frames_of E s n (idx + 1) cs new_entry)"

definition frame :: "Entry \<Rightarrow> SampleStreamResponse" where
  "frame e = \<lparr>entries = [e]\<rparr>"

text \<open>
  The frames of one sampled item when no write fails, and what the spec asks of the
  frames \<open>fs\<close> written for an item \<open>s\<close>: their chunks, read frame after
  frame, are the item's chunk list; no frame is empty; the last frame has
  \<open>end_of_sequence\<close> set and no frame before it has.
\<close>

definition item_frames :: "('t, 'w) Env \<Rightarrow> SampledItem \<Rightarrow> SampleStreamResponse list" where
  "item_frames E s = map frame (frames_of E s (length (chunks (ref s))) 0 (chunks (ref s)) new_entry)"

definition carries :: "SampledItem \<Rightarrow> SampleStreamResponse list \<Rightarrow> bool" where
  "carries s fs =
     (concat (map frame_chunks fs) = chunks (ref s) \<and>
      (\<forall>f \<in> set fs. frame_chunks f \<noteq> []) \<and>
      (chunks (ref s) \<noteq> [] \<longrightarrow> map end_of_sequence (entries (last fs)) = [True]) \<and>
      (\<forall>f \<in> set (butlast fs). \<forall>e \<in> set (entries f). \<not> end_of_sequence e))"

subsection \<open>SampleStream: the requests of a stream\<close>

text \<open>
  The conversion of an integer to \<^verbatim>\<open>int32_t\<close> (two's complement, the high bits
  dropped), as \<^verbatim>\<open>std::min<int32_t>\<close> converts its arguments and as the
  assignment to \<^verbatim>\<open>int count\<close> does.
\<close>

definition int32_t :: "int \<Rightarrow> int" where
  "int32_t x = sint (word_of_int x :: 32 word)"

definition ZeroDuration :: Duration where
  "ZeroDuration = Milliseconds 0"

fun duration_less :: "Duration \<Rightarrow> Duration \<Rightarrow> bool" where
  "duration_less (Milliseconds a) (Milliseconds b) = (a < b)"
| "duration_less (Milliseconds a) InfiniteDuration = True"
| "duration_less InfiniteDuration d = False"

text \<open>The timeout computed from the initial request, before the loop over requests.\<close>

definition initial_timeout :: "SampleStreamRequest \<Rightarrow> Duration" where
  "initial_timeout request =
     (let timeout = Milliseconds (case rate_limiter_timeout request of
                                    Some t \<Rightarrow> milliseconds t
                                  | None \<Rightarrow> - 1)
      in if duration_less timeout ZeroDuration then InfiniteDuration else timeout)"

text \<open>The loop over the samples of one batch.\<close>

fun emit_samples ::
  "('t, 'w) Env \<Rightarrow> SampledItem list \<Rightarrow> ('t, 'w) SampleRun \<Rightarrow> outcome \<times> ('t, 'w) SampleRun" where
  "emit_samples E [] r = (Continue, r)"
| "emit_samples E (s # ss) r =
     (case emit_sample E s r of
        (Continue, r') \<Rightarrow> emit_samples E ss r'
      | (oc, r') \<Rightarrow> (oc, r'))"

definition max_batch_size :: "('t, 'w) Env \<Rightarrow> SampleStreamRequest \<Rightarrow> int \<Rightarrow> int \<Rightarrow> int" where
  "max_batch_size E request default_flexible_batch_size count =
     min (int32_t (if flexible_batch_size request = kAutoSelectValue E
                   then default_flexible_batch_size
                   else flexible_batch_size request))
         (int32_t (num_samples request - count))"

text \<open>
  The loop \<^verbatim>\<open>while (!context->IsCancelled() && count != request.num_samples())\<close>.
  Each iteration uses one unit of fuel.
\<close>

fun sample_batches ::
  "('t, 'w) Env \<Rightarrow> SampleStreamRequest \<Rightarrow> 't \<Rightarrow> int \<Rightarrow> Duration \<Rightarrow> nat \<Rightarrow> int \<Rightarrow>
   ('t, 'w) SampleRun \<Rightarrow> outcome \<times> ('t, 'w) SampleRun" where
  "sample_batches E request tbl dflt timeout 0 count r = (OutOfFuel, r)"
| "sample_batches E request tbl dflt timeout (Suc fuel) count r =
     (let cancelled = IsCancelled E (polls r);
          r1 = r\<lparr>polls := polls r + 1\<rparr>
      in if cancelled \<or> count = num_samples request then (Continue, r1)
         else
           (let m = max_batch_size E request dflt count;
                ((status, samples), w) = SampleFlexibleBatch E tbl m timeout (world r1);
                r2 = r1\<lparr>world := w, calls := calls r1 @ [(tbl, m, timeout)]\<rparr>
            in if \<not> ok status then (Return (ToGrpcStatus status), r2)
               else (case emit_samples E samples r2 of
                       (Continue, r3) \<Rightarrow>
                         sample_batches E request tbl dflt timeout fuel
                           (int32_t (count + int (length samples))) r3
                     | (oc, r3) \<Rightarrow> (oc, r3))))"

text \<open>The body of the \<^verbatim>\<open>do\<close> loop for one request.\<close>

definition serve_request ::
  "('t, 'w) Env \<Rightarrow> Duration \<Rightarrow> nat \<Rightarrow> SampleStreamRequest \<Rightarrow> ('t, 'w) SampleRun \<Rightarrow>
   outcome \<times> ('t, 'w) SampleRun" where
  "serve_request E timeout fuel request r =
     (if num_samples request \<le> 0
      then (Return (Status INVALID_ARGUMENT (CHR 0x60 # ''num_samples'' @ CHR 0x60 # '' must be > 0.'')), r)
      else if flexible_batch_size request \<le> 0 \<and> flexible_batch_size request \<noteq> kAutoSelectValue E
      then (Return (Status INVALID_ARGUMENT
                      (CHR 0x60 # ''flexible_batch_size'' @ CHR 0x60 # '' must be > 0 or '' @
                       dec_int (kAutoSelectValue E) @ '' (for auto tuning).'')), r)
      else (case TableByName E (sample_table request) of
              None \<Rightarrow> (Return (TableNotFound (sample_table request)), r)
            | Some tbl \<Rightarrow>
                sample_batches E request tbl (DefaultFlexibleBatchSize E tbl) timeout fuel 0 r))"

text \<open>
  The \<^verbatim>\<open>do ... while (stream->Read(&request))\<close> loop over the requests still to
  be read; when the stream has no further request the handler returns OK.
\<close>

fun serve_requests ::
  "('t, 'w) Env \<Rightarrow> Duration \<Rightarrow> nat \<Rightarrow> SampleStreamRequest list \<Rightarrow> ('t, 'w) SampleRun \<Rightarrow>
   outcome \<times> ('t, 'w) SampleRun" where
  "serve_requests E timeout fuel [] r = (Return Status_OK, r)"
| "serve_requests E timeout fuel (request # rest) r =
     (case serve_request E timeout fuel request r of
        (Continue, r') \<Rightarrow> serve_requests E timeout fuel rest r'
      | (oc, r') \<Rightarrow> (oc, r'))"

definition SampleStreamInternal ::
  "('t, 'w) Env \<Rightarrow> nat \<Rightarrow> SampleStreamRequest list \<Rightarrow> ('t, 'w) SampleRun \<Rightarrow>
   outcome \<times> ('t, 'w) SampleRun" where
  "SampleStreamInternal E fuel requests r =
     (case requests of
        [] \<Rightarrow> (Return (Internal ''Could not read initial request''), r)
      | request # rest \<Rightarrow> serve_requests E (initial_timeout request) fuel (request # rest) r)"

text \<open>The \<^verbatim>\<open>SampleFlexibleBatch\<close> calls made since the run was in state \<open>r\<close>.\<close>

definition calls_since :: "('t, 'w) SampleRun \<Rightarrow> ('t, 'w) SampleRun \<Rightarrow> ('t \<times> int \<times> Duration) list" where
  "calls_since r r' = drop (length (calls r)) (calls r')"

subsection \<open>InsertStream\<close>

record InsertItem =
  ins_item :: PrioritizedItem
  send_confirmation :: bool
  keep_chunk_keys :: "Key list"

record InsertStreamRequest =
  req_chunks :: "ChunkData list"
  req_item :: "InsertItem option"

record InsertStreamResponse =
  keys :: "Key list"

text \<open>
  The state of an InsertStream run: the shared objects, the handler's local map
  \<^verbatim>\<open>chunks\<close> (the spec's \<open>pending_chunks\<close>), the confirmations the transport
  accepted and the number of writes so far.
\<close>

record 'w InsertRun =
  shared :: 'w
  pending_chunks :: "(Key, ChunkData) fmap"
  confirmations :: "InsertStreamResponse list"
  confirmation_writes :: nat

text \<open>The loop over the chunks of a request.\<close>

fun insert_chunks :: "('t, 'w) Env \<Rightarrow> ChunkData list \<Rightarrow> 'w InsertRun \<Rightarrow> outcome \<times> 'w InsertRun" where
  "insert_chunks E [] r = (Continue, r)"
| "insert_chunks E (chunk # rest) r =
     (case ChunkStore_Insert E chunk (shared r) of
        (None, w) \<Rightarrow> (Return (Status CANCELLED ''Service has been closed''), r\<lparr>shared := w\<rparr>)
      | (Some chunk_sp, w) \<Rightarrow>
          insert_chunks E rest
            (r\<lparr>shared := w, pending_chunks := fmupd (chunk_key chunk) chunk_sp (pending_chunks r)\<rparr>))"

text \<open>The lambda \<^verbatim>\<open>push_or\<close> and the loop that calls it for every key of the trajectory.\<close>

definition push_or :: "(Key, ChunkData) fmap \<Rightarrow> ChunkData list \<Rightarrow> Key \<Rightarrow> Status + ChunkData list" where
  "push_or m item_chunks k =
     (case fmlookup m k of
        None \<Rightarrow> Inl (Internal (''Could not find sequence chunk '' @ dec (unat k) @ ''.''))
      | Some c \<Rightarrow> Inr (item_chunks @ [c]))"

fun push_all :: "(Key, ChunkData) fmap \<Rightarrow> ChunkData list \<Rightarrow> Key list \<Rightarrow> Status + ChunkData list" where
  "push_all m item_chunks [] = Inr item_chunks"
| "push_all m item_chunks (k # ks) =
     (case push_or m item_chunks k of
        Inl status \<Rightarrow> Inl status
      | Inr item_chunks' \<Rightarrow> push_all m item_chunks' ks)"

text \<open>
  ``Only keep specified chunks'': the erase loop and the \<^verbatim>\<open>REVERB_CHECK_EQ\<close>
  after it. \<^verbatim>\<open>keep_keys\<close> is a set, so a key listed twice counts once.
\<close>

definition retain :: "Key list \<Rightarrow> (Key, ChunkData) fmap \<Rightarrow> outcome \<times> (Key, ChunkData) fmap" where
  "retain keep m =
     (let keep_keys = fset_of_list keep;
          m' = fmfilter (\<lambda>k. k |\<in>| keep_keys) m
      in (if fcard (fmdom m') = fcard keep_keys then Continue
          else Abort ''Kept less chunks than expected.'', m'))"

definition send_confirmation_for :: "('t, 'w) Env \<Rightarrow> InsertItem \<Rightarrow> 'w InsertRun \<Rightarrow> outcome \<times> 'w InsertRun" where
  "send_confirmation_for E it r =
     (if send_confirmation it
      then (if Write E (confirmation_writes r)
            then (Continue, r\<lparr>confirmations := confirmations r @ [\<lparr>keys = [key (ins_item it)]\<rparr>],
                              confirmation_writes := confirmation_writes r + 1\<rparr>)
            else (Return (Internal (''Error when sending confirmation that item '' @
                                    dec (unat (key (ins_item it))) @
                                    '' has been successfully inserted/updated.'')),
                  r\<lparr>confirmation_writes := confirmation_writes r + 1\<rparr>))
      else (Continue, r))"

text \<open>The branch \<^verbatim>\<open>if (request.has_item())\<close>.\<close>

definition insert_item :: "('t, 'w) Env \<Rightarrow> InsertItem \<Rightarrow> 'w InsertRun \<Rightarrow> outcome \<times> 'w InsertRun" where
  "insert_item E it r =
     (case push_all (pending_chunks r) [] (flat_trajectory (ins_item it)) of
        Inl status \<Rightarrow> (Return status, r)
      | Inr item_chunks \<Rightarrow>
          (case TableByName E (table (ins_item it)) of
             None \<Rightarrow> (Return (TableNotFound (table (ins_item it))), r)
           | Some tbl \<Rightarrow>
               (let (status, w) = InsertOrAssign E tbl \<lparr>item = ins_item it, chunks = item_chunks\<rparr> (shared r);
                    r1 = r\<lparr>shared := w\<rparr>
                in if \<not> ok status then (Return (ToGrpcStatus status), r1)
                   else (case send_confirmation_for E it r1 of
                           (Continue, r2) \<Rightarrow>
                             (let (oc, m) = retain (keep_chunk_keys it) (pending_chunks r2)
                              in (oc, r2\<lparr>pending_chunks := m\<rparr>))
                         | (oc, r2) \<Rightarrow> (oc, r2)))))"

text \<open>The body of the loop \<^verbatim>\<open>while (queue.Pop(&request))\<close>.\<close>

definition insert_request :: "('t, 'w) Env \<Rightarrow> InsertStreamRequest \<Rightarrow> 'w InsertRun \<Rightarrow> outcome \<times> 'w InsertRun" where
  "insert_request E request r =
     (case insert_chunks E (req_chunks request) r of
        (Continue, r1) \<Rightarrow>
          (case req_item request of
             None \<Rightarrow> (Continue, r1)
           | Some it \<Rightarrow> insert_item E it r1)
      | (oc, r1) \<Rightarrow> (oc, r1))"

text \<open>
  The requests reach the handler in the order the reader thread pushed them onto the
  queue, which is the order of the stream; when the queue is drained the handler
  returns OK.
\<close>

fun insert_requests :: "('t, 'w) Env \<Rightarrow> InsertStreamRequest list \<Rightarrow> 'w InsertRun \<Rightarrow> outcome \<times> 'w InsertRun" where
  "insert_requests E [] r = (Return Status_OK, r)"
| "insert_requests E (request # rest) r =
     (case insert_request E request r of
        (Continue, r') \<Rightarrow> insert_requests E rest r'
      | (oc, r') \<Rightarrow> (oc, r'))"

definition InsertStreamInternal :: "('t, 'w) Env \<Rightarrow> InsertStreamRequest list \<Rightarrow> 'w \<Rightarrow> outcome \<times> 'w InsertRun" where
  "InsertStreamInternal E requests w =
     insert_requests E requests
       \<lparr>shared = w, pending_chunks = fmempty, confirmations = [], confirmation_writes = 0\<rparr>"

subsection \<open>InitializeConnection\<close>

record InitializeConnectionRequest =
  pid :: int
  table_name :: string
  ownership_transferred :: bool

record InitializeConnectionResponse =
  address :: int

text \<open>
  The state of a handshake: every response handed to \<^verbatim>\<open>stream->Write\<close> with the
  transport's answer, the number of table holders allocated with \<^verbatim>\<open>new\<close> and
  the number of them deleted by the scope's cleanup.
\<close>

record ConnRun =
  handed :: "(InitializeConnectionResponse \<times> bool) list"
  allocated :: nat
  deleted :: nat

definition conn_write :: "('t, 'w) Env \<Rightarrow> InitializeConnectionResponse \<Rightarrow> ConnRun \<Rightarrow> bool \<times> ConnRun" where
  "conn_write E response r =
     (let accepted = Write E (length (handed r))
      in (accepted, r\<lparr>handed := handed r @ [(response, accepted)]\<rparr>))"

text \<open>
  \<open>peer\<close> is \<^verbatim>\<open>context->peer()\<close>, \<open>ptr\<close> the address \<^verbatim>\<open>new\<close> returns
  for the holder.
\<close>

definition InitializeConnection ::
  "('t, 'w) Env \<Rightarrow> string \<Rightarrow> int \<Rightarrow> InitializeConnectionRequest list \<Rightarrow> ConnRun \<Rightarrow> Status \<times> ConnRun" where
  "InitializeConnection E peer ptr requests r =
     (if \<not> IsLocalhostOrInProcess E peer then (Status_OK, r)
      else (case requests of
              [] \<Rightarrow> (Internal ''Failed to read from stream'', r)
            | request # rest \<Rightarrow>
                if pid request \<noteq> getpid E
                then (Status_OK, snd (conn_write E \<lparr>address = 0\<rparr> r))
                else (case fmlookup (tables E) (table_name request) of
                        None \<Rightarrow> (TableNotFound (table_name request), r)
                      | Some tbl \<Rightarrow>
                          (let r1 = r\<lparr>allocated := allocated r + 1\<rparr>;
                               (accepted, r2) = conn_write E \<lparr>address = ptr\<rparr> r1;
                               r3 = r2\<lparr>deleted := deleted r2 + 1\<rparr>
                           in if \<not> accepted then (Internal ''Failed to write to stream.'', r3)
                              else (case rest of
                                      [] \<Rightarrow> (Internal ''Failed to read from stream.'', r3)
                                    | confirmation # rest' \<Rightarrow>
                                        if \<not> ownership_transferred confirmation
                                        then (Internal ''Received unexpected request'', r3)
                                        else (Status_OK, r3))))))"

subsection \<open>A small server to run the handlers on\<close>

text \<open>
  A world with one chunk store and tables that record what is inserted and hand out
  queued samples in order; a table handle is the table's name. The size of an entry is
  taken to be the number of payload bytes of its chunks.
\<close>

record World =
  closed :: bool
  inserted :: "(string \<times> TableItem) list"
  queue :: "SampledItem list"

definition payload_bytes :: "Entry \<Rightarrow> nat" where
  "payload_bytes e = sum_list (map (\<lambda>c. length (payload c)) (data e))"

definition demo_sample :: "string \<Rightarrow> int \<Rightarrow> Duration \<Rightarrow> World \<Rightarrow> (Status \<times> SampledItem list) \<times> World" where
  "demo_sample t m d w =
     (case queue w of
        [] \<Rightarrow> ((Status DEADLINE_EXCEEDED ''Rate limiter timed out'', []), w)
      | _ \<Rightarrow> ((Status_OK, take (nat m) (queue w)), w\<lparr>queue := drop (nat m) (queue w)\<rparr>))"

definition demo_env :: "(string, World) Env" where
  "demo_env =
     \<lparr>tables = fmap_of_list [(''t'', ''t'')],
      DefaultFlexibleBatchSize = (\<lambda>t. 2),
      SampleFlexibleBatch = demo_sample,
      InsertOrAssign = (\<lambda>t i w. (Status_OK, w\<lparr>inserted := inserted w @ [(t, i)]\<rparr>)),
      ChunkStore_Insert = (\<lambda>c w. (if closed w then None else Some c, w)),
      IsCancelled = (\<lambda>n. False),
      Write = (\<lambda>n. True),
      ByteSizeLong = payload_bytes,
      kAutoSelectValue = - 1,
      IsLocalhostOrInProcess = (\<lambda>p. p = ''localhost''),
      getpid = 4242\<rparr>"

definition chunk_of :: "Key \<Rightarrow> nat \<Rightarrow> ChunkData" where
  "chunk_of k n = \<lparr>chunk_key = k, payload = replicate n 0\<rparr>"

definition item_of :: "Key \<Rightarrow> Key list \<Rightarrow> PrioritizedItem" where
  "item_of k ks = \<lparr>key = k, table = ''t'', priority = 1, times_sampled = 0, flat_trajectory = ks\<rparr>"

definition sample_of :: "Key \<Rightarrow> ChunkData list \<Rightarrow> SampledItem" where
  "sample_of k cs =
     \<lparr>ref = \<lparr>item = item_of k (map chunk_key cs), chunks = cs\<rparr>,
      sampled_priority = 1, sampled_times_sampled = 1, probability = 1, table_size = 1,
      rate_limited = False\<rparr>"

definition world_of :: "SampledItem list \<Rightarrow> World" where
  "world_of ss = \<lparr>closed = False, inserted = [], queue = ss\<rparr>"

definition run_of :: "World \<Rightarrow> (string, World) SampleRun" where
  "run_of w = \<lparr>world = w, written = [], writes = 0, polls = 0, calls = []\<rparr>"

definition insert_run_of :: "World \<Rightarrow> World InsertRun" where
  "insert_run_of w = \<lparr>shared = w, pending_chunks = fmempty, confirmations = [], confirmation_writes = 0\<rparr>"

definition request_of :: "ChunkData list \<Rightarrow> Key \<Rightarrow> Key list \<Rightarrow> Key list \<Rightarrow> InsertStreamRequest" where
  "request_of cs k traj keep =
     \<lparr>req_chunks = cs,
      req_item = Some \<lparr>ins_item = item_of k traj, send_confirmation = True, keep_chunk_keys = keep\<rparr>\<rparr>"

definition sample_request :: "int \<Rightarrow> int \<Rightarrow> Timeout option \<Rightarrow> SampleStreamRequest" where
  "sample_request n b t = \<lparr>sample_table = ''t'', num_samples = n, flexible_batch_size = b, rate_limiter_timeout = t\<rparr>"

definition queue3 :: "SampledItem list" where
  "queue3 = [sample_of 100 [chunk_of 1 1], sample_of 101 [chunk_of 2 1], sample_of 102 [chunk_of 3 1]]"

definition MiB :: nat where
  "MiB = 1024 * 1024"

text \<open>
  An environment whose world keeps, beside the world of \<open>E\<close>, the list of the
  items its tables have handed out with an OK status, oldest first.
\<close>

definition logging :: "('t, 'w) Env \<Rightarrow> ('t, 'w \<times> SampledItem list) Env" where
  "logging E =
     \<lparr>tables = tables E,
      DefaultFlexibleBatchSize = DefaultFlexibleBatchSize E,
      SampleFlexibleBatch = (\<lambda>tbl m t wl.
         (fst (SampleFlexibleBatch E tbl m t (fst wl)),
          (snd (SampleFlexibleBatch E tbl m t (fst wl)),
           snd wl @ (if ok (fst (fst (SampleFlexibleBatch E tbl m t (fst wl))))
                     then snd (fst (SampleFlexibleBatch E tbl m t (fst wl))) else [])))),
      InsertOrAssign = (\<lambda>tbl i wl.
         (fst (InsertOrAssign E tbl i (fst wl)), (snd (InsertOrAssign E tbl i (fst wl)), snd wl))),
      ChunkStore_Insert = (\<lambda>c wl.
         (fst (ChunkStore_Insert E c (fst wl)), (snd (ChunkStore_Insert E c (fst wl)), snd wl))),
      IsCancelled = IsCancelled E,
      Write = Write E,
      ByteSizeLong = ByteSizeLong E,
      kAutoSelectValue = kAutoSelectValue E,
      IsLocalhostOrInProcess = IsLocalhostOrInProcess E,
      getpid = getpid E\<rparr>"

definition logged_run_of :: "World \<Rightarrow> (string, World \<times> SampledItem list) SampleRun" where
  "logged_run_of w = \<lparr>world = (w, []), written = [], writes = 0, polls = 0, calls = []\<rparr>"

definition queue2 :: "SampledItem list" where
  "queue2 = [sample_of 100 [chunk_of 1 (30 * MiB), chunk_of 2 (20 * MiB), chunk_of 3 MiB],
             sample_of 101 [chunk_of 4 1]]"

section \<open>Properties\<close>

subsection \<open>Framing of a sampled item\<close>

lemma data_add_chunk [simp]: "data (add_chunk s n idx c e) = data e @ [c]"
  by (simp add: add_chunk_def Let_def)

lemma eos_add_chunk [simp]: "end_of_sequence (add_chunk s n idx c e) = (idx + 1 = n)"
  by (simp add: add_chunk_def Let_def)

lemma before_last_add_chunk:
  "0 < idx \<Longrightarrow> \<not> end_of_sequence e \<Longrightarrow> before_last (add_chunk s n idx c e) = e"
  by (simp add: before_last_def add_chunk_def Let_def)

lemma frames_of_Nil_iff: "idx + length cs = n \<Longrightarrow> (frames_of E s n idx cs entry = []) = (cs = [])"
  by (induction cs arbitrary: idx entry) (auto simp: Let_def)

lemma concat_frames_of:
  "idx + length cs = n \<Longrightarrow> cs \<noteq> [] \<Longrightarrow>
   concat (map data (frames_of E s n idx cs entry)) = data entry @ cs"
proof (induction cs arbitrary: idx entry)
  case Nil
  then show ?case by simp
next
  case (Cons c cs)
  show ?case
  proof (cases cs)
    case Nil
    with Cons.prems show ?thesis by (auto simp: Let_def)
  next
    case (Cons d ds)
    with Cons.prems Cons.IH [of "idx + 1"] show ?thesis
      by (auto simp: Let_def new_entry_def)
  qed
qed

lemma eos_frames_of:
  "idx + length cs = n \<Longrightarrow> cs \<noteq> [] \<Longrightarrow>
   end_of_sequence (last (frames_of E s n idx cs entry)) \<and>
   (\<forall>e \<in> set (butlast (frames_of E s n idx cs entry)). \<not> end_of_sequence e)"
proof (induction cs arbitrary: idx entry)
  case Nil
  then show ?case by simp
next
  case (Cons c cs)
  let ?e = "add_chunk s n idx c entry"
  have len: "idx + 1 + length cs = n" using Cons.prems(1) by simp
  note nil = frames_of_Nil_iff [OF len, of E s]
  show ?case
  proof (cases "cs = []")
    case True
    with Cons.prems show ?thesis by (auto simp: Let_def)
  next
    case False
    then have lt: "idx < n - 1" using len by (cases cs) auto
    show ?thesis
    proof (cases "ByteSizeLong E ?e < kMaxSampleResponseSizeBytes")
      case True
      with lt Cons.IH [OF len False, of ?e] show ?thesis by (simp add: Let_def)
    next
      case big: False
      have "\<not> end_of_sequence ?e" using lt by simp
      with lt big False nil [of new_entry] Cons.IH [OF len False, of new_entry] show ?thesis
        by (simp add: Let_def)
    qed
  qed
qed

lemma size_butlast_frames_of:
  "idx + length cs = n \<Longrightarrow> e \<in> set (butlast (frames_of E s n idx cs entry)) \<Longrightarrow>
   kMaxSampleResponseSizeBytes \<le> ByteSizeLong E e"
proof (induction cs arbitrary: idx entry)
  case Nil
  then show ?case by simp
next
  case (Cons c cs)
  let ?e = "add_chunk s n idx c entry"
  have len: "idx + 1 + length cs = n" using Cons.prems(1) by simp
  note nil = frames_of_Nil_iff [OF len, of E s]
  show ?case
  proof (cases "idx < n - 1 \<and> ByteSizeLong E ?e < kMaxSampleResponseSizeBytes")
    case True
    with Cons.prems(2) have "e \<in> set (butlast (frames_of E s n (idx + 1) cs ?e))"
      by (simp add: Let_def)
    then show ?thesis by (rule Cons.IH [OF len])
  next
    case False
    show ?thesis
    proof (cases "cs = []")
      case True
      with False Cons.prems(2) show ?thesis by (auto simp: Let_def split: if_splits)
    next
      case ne: False
      then have lt: "idx < n - 1" using len by (cases cs) auto
      with False have big: "kMaxSampleResponseSizeBytes \<le> ByteSizeLong E ?e" by simp
      from False ne Cons.prems(2) nil [of new_entry]
      have "e = ?e \<or> e \<in> set (butlast (frames_of E s n (idx + 1) cs new_entry))"
        by (auto simp: Let_def split: if_splits)
      then show ?thesis using big Cons.IH [OF len] by blast
    qed
  qed
qed



lemma size_before_last_frames_of:
  "idx + length cs = n \<Longrightarrow>
   (data entry \<noteq> [] \<longrightarrow> 0 < idx \<and> \<not> end_of_sequence entry \<and> ByteSizeLong E entry < kMaxSampleResponseSizeBytes) \<Longrightarrow>
   e \<in> set (frames_of E s n idx cs entry) \<Longrightarrow> 2 \<le> length (data e) \<Longrightarrow>
   ByteSizeLong E (before_last e) < kMaxSampleResponseSizeBytes"
proof (induction cs arbitrary: idx entry)
  case Nil
  then show ?case by simp
next
  case (Cons c cs)
  let ?e = "add_chunk s n idx c entry"
  have len: "idx + 1 + length cs = n" using Cons.prems(1) by simp
  show ?case
  proof (cases "idx < n - 1 \<and> ByteSizeLong E ?e < kMaxSampleResponseSizeBytes")
    case True
    then have mem: "e \<in> set (frames_of E s n (idx + 1) cs ?e)"
      using Cons.prems(3) by (simp add: Let_def)
    have inv: "data ?e \<noteq> [] \<longrightarrow> 0 < idx + 1 \<and> \<not> end_of_sequence ?e \<and> ByteSizeLong E ?e < kMaxSampleResponseSizeBytes"
      using True by auto
    show ?thesis by (rule Cons.IH [OF len inv mem Cons.prems(4)])
  next
    case False
    then have "e = ?e \<or> e \<in> set (frames_of E s n (idx + 1) cs new_entry)"
      using Cons.prems(3) by (auto simp: Let_def split: if_splits)
    then show ?thesis
    proof
      assume e: "e = ?e"
      with Cons.prems(4) have "data entry \<noteq> []" by (cases "data entry") auto
      with Cons.prems(2) have "0 < idx" "\<not> end_of_sequence entry" "ByteSizeLong E entry < kMaxSampleResponseSizeBytes" by auto
      then show ?thesis using e by (simp add: before_last_add_chunk)
    next
      assume mem: "e \<in> set (frames_of E s n (idx + 1) cs new_entry)"
      have inv: "data new_entry \<noteq> [] \<longrightarrow> 0 < idx + 1 \<and> \<not> end_of_sequence new_entry \<and> ByteSizeLong E new_entry < kMaxSampleResponseSizeBytes"
        by (simp add: new_entry_def)
      show ?thesis by (rule Cons.IH [OF len inv mem Cons.prems(4)])
    qed
  qed
qed


lemma data_frames_of_nonempty:
  "e \<in> set (frames_of E s n idx cs entry) \<Longrightarrow> data e \<noteq> []"
  by (induction cs arbitrary: idx entry) (auto simp: Let_def split: if_splits)

lemma emit_chunks_written_prefix:
  "\<exists>k. written (snd (emit_chunks E s n idx cs entry r)) =
        written r @ take k (map frame (frames_of E s n idx cs entry))"
proof (induction cs arbitrary: idx entry r)
  case Nil
  show ?case by simp
next
  case (Cons c cs)
  let ?e = "add_chunk s n idx c entry"
  show ?case
  proof (cases "idx < n - 1 \<and> ByteSizeLong E ?e < kMaxSampleResponseSizeBytes")
    case True
    with Cons.IH [of "idx + 1" ?e r] show ?thesis by (simp add: Let_def)
  next
    case False
    show ?thesis
    proof (cases "Write E (writes r)")
      case True
      let ?r = "r\<lparr>written := written r @ [\<lparr>entries = [?e]\<rparr>], writes := writes r + 1\<rparr>"
      from Cons.IH [of "idx + 1" new_entry ?r] obtain k where
        "written (snd (emit_chunks E s n (idx + 1) cs new_entry ?r)) =
           written ?r @ take k (map frame (frames_of E s n (idx + 1) cs new_entry))" ..
      with False True have
        "written (snd (emit_chunks E s n idx (c # cs) entry r)) =
           written r @ take (Suc k) (map frame (frames_of E s n idx (c # cs) entry))"
        by (auto simp: Let_def frame_def)
      then show ?thesis ..
    next
      case no: False
      with False have
        "written (snd (emit_chunks E s n idx (c # cs) entry r)) =
           written r @ take 0 (map frame (frames_of E s n idx (c # cs) entry))"
        by (auto simp: Let_def)
      then show ?thesis ..
    qed
  qed
qed

lemma set_butlast_take: "set (butlast (take k xs)) \<subseteq> set (butlast xs)"
proof (cases "k < length xs")
  case True
  then have "butlast (take k xs) = take (k - 1) (butlast xs)"
    by (simp add: butlast_take take_butlast)
  then show ?thesis by (simp add: set_take_subset)
next
  case False
  then show ?thesis by simp
qed

lemmas demo_simps =
  emit_sample_def sample_of_def chunk_of_def run_of_def world_of_def demo_env_def
  add_chunk_def Let_def payload_bytes_def kMaxSampleResponseSizeBytes_def new_entry_def
  frame_size_def item_of_def MiB_def written_since_def frame_chunks_def before_last_def

text \<open>
  C1, as the spec states it, fails: the size test comes after the chunk has been
  appended, so a chunk of 30 MiB followed by one of 20 MiB leaves in one frame of
  50 MiB; the second chunk does not start a new frame.
\<close>

theorem frame_over_40MiB_counterexample:
  "map (frame_size demo_env)
     (written (snd (emit_sample demo_env
        (sample_of 100 [chunk_of 1 (30 * MiB), chunk_of 2 (20 * MiB)])
        (run_of (world_of [])))))
    = [50 * MiB] \<and> kMaxSampleResponseSizeBytes < 50 * MiB"
  by (simp add: demo_simps)

text \<open>
  C1 (amended): 40 MiB is the size at which a frame is flushed, not a bound on the
  frame. Of the frames written for one sampled item, every frame but the last written
  has reached 40 MiB, and every frame of two or more chunks was below 40 MiB before
  its last chunk was appended. So a frame is closed by the first chunk that takes it
  to 40 MiB or beyond (or by the item's last chunk), and holds that chunk.
\<close>

theorem emit_sample_frame_sizes:
  "(\<forall>f \<in> set (butlast (written_since r (snd (emit_sample E s r)))). \<forall>e \<in> set (entries f).
       kMaxSampleResponseSizeBytes \<le> ByteSizeLong E e) \<and>
   (\<forall>f \<in> set (written_since r (snd (emit_sample E s r))). \<forall>e \<in> set (entries f).
       2 \<le> length (data e) \<longrightarrow> ByteSizeLong E (before_last e) < kMaxSampleResponseSizeBytes)"
proof -
  let ?n = "length (chunks (ref s))"
  let ?fs = "frames_of E s ?n 0 (chunks (ref s)) new_entry"
  obtain k where "written (snd (emit_sample E s r)) = written r @ take k (map frame ?fs)"
    using emit_chunks_written_prefix [of E s ?n 0 "chunks (ref s)" new_entry r]
    by (auto simp: emit_sample_def)
  then have ws: "written_since r (snd (emit_sample E s r)) = map frame (take k ?fs)"
    by (simp add: written_since_def take_map)
  have len: "0 + length (chunks (ref s)) = ?n" by simp
  have inv: "data new_entry \<noteq> [] \<longrightarrow> 0 < (0::nat) \<and> \<not> end_of_sequence new_entry \<and>
             ByteSizeLong E new_entry < kMaxSampleResponseSizeBytes"
    by (simp add: new_entry_def)
  have a: "kMaxSampleResponseSizeBytes \<le> ByteSizeLong E e" if "e \<in> set (butlast (take k ?fs))" for e
    using that set_butlast_take [of k ?fs] size_butlast_frames_of [OF len, of e E s new_entry] by blast
  have b: "ByteSizeLong E (before_last e) < kMaxSampleResponseSizeBytes"
    if "e \<in> set (take k ?fs)" "2 \<le> length (data e)" for e
    using that size_before_last_frames_of [OF len inv, of e] by (blast dest: in_set_takeD)
  show ?thesis
    using a b by (auto simp: ws frame_def map_butlast [symmetric])
qed

theorem emit_sample_frame_sizes_witness:
  "map (frame_size demo_env)
     (written (snd (emit_sample demo_env
        (sample_of 100 [chunk_of 1 (30 * MiB), chunk_of 2 (20 * MiB), chunk_of 3 MiB])
        (run_of (world_of [])))))
    = [50 * MiB, MiB] \<and>
   kMaxSampleResponseSizeBytes \<le> 50 * MiB \<and>
   30 * MiB < kMaxSampleResponseSizeBytes"
  using emit_sample_frame_sizes [of "run_of (world_of [])" demo_env
      "sample_of 100 [chunk_of 1 (30 * MiB), chunk_of 2 (20 * MiB), chunk_of 3 MiB]"]
  by (simp add: demo_simps)

subsection \<open>InsertStream\<close>

lemma fmdom_retain: "fmdom (snd (retain keep m)) = ffilter (\<lambda>k. k |\<in>| fset_of_list keep) (fmdom m)"
  by (simp add: retain_def Let_def)

lemma fmlookup_retain:
  "fmlookup (snd (retain keep m)) k = (if k \<in> set keep then fmlookup m k else None)"
  by (simp add: retain_def Let_def fset_of_list.rep_eq)

lemma retain_Continue_iff:
  "(fst (retain keep m) = Continue) = (set keep \<subseteq> fset (fmdom m))"
proof -
  let ?K = "fset_of_list keep"
  let ?D = "ffilter (\<lambda>k. k |\<in>| ?K) (fmdom m)"
  have sub: "?D |\<subseteq>| ?K" by auto
  have "(fcard ?D = fcard ?K) = (?D = ?K)"
  proof
    assume "fcard ?D = fcard ?K"
    then show "?D = ?K"
      using sub by (metis fcard_seteq order_refl)
  qed simp
  also have "\<dots> = (?K |\<subseteq>| fmdom m)" by auto
  also have "\<dots> = (set keep \<subseteq> fset (fmdom m))"
    by (simp add: less_eq_fset.rep_eq fset_of_list.rep_eq)
  finally show ?thesis by (simp add: retain_def Let_def)
qed

lemma retain_outcome: "fst (retain keep m) = Continue \<or> fst (retain keep m) = Abort ''Kept less chunks than expected.''"
  by (simp add: retain_def Let_def)

lemma pending_send_confirmation_for [simp]:
  "pending_chunks (snd (send_confirmation_for E it r)) = pending_chunks r"
  by (simp add: send_confirmation_for_def)

lemma send_confirmation_for_no_Abort: "fst (send_confirmation_for E it r) \<noteq> Abort msg"
  by (simp add: send_confirmation_for_def Internal_def)

lemma insert_item_cases:
  "(\<exists>st. insert_item E it r = (Return st, r)) \<or>
   (\<exists>st w. insert_item E it r = (Return st, r\<lparr>shared := w\<rparr>)) \<or>
   (\<exists>r1 w. r1 = snd (send_confirmation_for E it (r\<lparr>shared := w\<rparr>)) \<and>
      ((\<exists>st. insert_item E it r = (Return st, r1)) \<or>
       insert_item E it r =
         (fst (retain (keep_chunk_keys it) (pending_chunks r)),
          r1\<lparr>pending_chunks := snd (retain (keep_chunk_keys it) (pending_chunks r))\<rparr>)))"
  by (auto simp: insert_item_def Let_def send_confirmation_for_def
           split: sum.splits option.splits prod.splits outcome.splits)

lemma insert_item_Continue:
  assumes "fst (insert_item E it r) = Continue"
  shows "fset (fmdom (pending_chunks (snd (insert_item E it r)))) = set (keep_chunk_keys it)"
proof -
  from insert_item_cases [of E it r] assms
  have eq: "insert_item E it r =
         (fst (retain (keep_chunk_keys it) (pending_chunks r)),
          (snd (insert_item E it r))\<lparr>pending_chunks := snd (retain (keep_chunk_keys it) (pending_chunks r))\<rparr>)"
    by auto
  with assms have c: "fst (retain (keep_chunk_keys it) (pending_chunks r)) = Continue"
    by (metis fst_conv)
  then have sub: "set (keep_chunk_keys it) \<subseteq> fset (fmdom (pending_chunks r))"
    by (simp add: retain_Continue_iff)
  have "pending_chunks (snd (insert_item E it r)) = snd (retain (keep_chunk_keys it) (pending_chunks r))"
    by (subst eq) simp
  then show ?thesis
    using sub by (auto simp: fmdom_retain fset_of_list.rep_eq)
qed

lemma insert_item_no_Abort:
  assumes "set (keep_chunk_keys it) \<subseteq> fset (fmdom (pending_chunks r))"
  shows "fst (insert_item E it r) \<noteq> Abort msg"
proof -
  from assms have "fst (retain (keep_chunk_keys it) (pending_chunks r)) = Continue"
    by (simp add: retain_Continue_iff)
  with insert_item_cases [of E it r] show ?thesis by auto
qed


lemma insert_chunks_append:
  "insert_chunks E (xs @ ys) r =
     (case insert_chunks E xs r of
        (Continue, r1) \<Rightarrow> insert_chunks E ys r1
      | (oc, r1) \<Rightarrow> (oc, r1))"
  by (induction xs arbitrary: r) (auto split: prod.splits option.splits outcome.splits)

lemma insert_chunks_InsertOrAssign [simp]:
  "insert_chunks (E\<lparr>InsertOrAssign := f\<rparr>) cs r = insert_chunks E cs r"
  by (induction cs arbitrary: r) (auto split: prod.splits option.splits)

lemma push_all_missing:
  "find (\<lambda>k. fmlookup m k = None) ks = Some K \<Longrightarrow>
   push_all m acc ks = Inl (Internal (''Could not find sequence chunk '' @ dec (unat K) @ ''.''))"
  by (induction ks arbitrary: acc) (auto simp: push_or_def split: option.splits if_splits)

text \<open>
  C4: a request whose chunks were all stored and whose item names a key that the
  handler's map does not hold ends the stream with Internal ``Could not find sequence
  chunk K.'', K being the first such key of the trajectory. The state left is the one
  the chunk loop left, whatever \<^verbatim>\<open>InsertOrAssign\<close> would do (\<open>f\<close> is
  arbitrary): the table is not called, and the requests after this one are not read.
\<close>

theorem missing_chunk_is_Internal:
  assumes chunks: "insert_chunks E (req_chunks request) r = (Continue, r1)"
    and it: "req_item request = Some it"
    and missing: "find (\<lambda>k. fmlookup (pending_chunks r1) k = None) (flat_trajectory (ins_item it)) = Some K"
  shows "insert_requests (E\<lparr>InsertOrAssign := f\<rparr>) (request # rest) r =
           (Return (Status INTERNAL (''Could not find sequence chunk '' @ dec (unat K) @ ''.'')), r1)"
  using chunks it push_all_missing [OF missing, of "[]"]
  by (simp add: insert_request_def insert_item_def Internal_def)

text \<open>
  C5: when the chunk store answers a chunk of the request with ``no chunk'', the stream
  ends with Cancelled ``Service has been closed''. \<open>r\<close> is the state the earlier
  requests of the stream left; the state returned differs from it by the chunk store
  calls of this request only, whatever \<^verbatim>\<open>InsertOrAssign\<close> would do: no table
  is called, nothing is undone.
\<close>

theorem closed_store_cancels_stream:
  assumes split: "req_chunks request = before @ chunk # rest_chunks"
    and before: "insert_chunks E before r = (Continue, r1)"
    and closed: "fst (ChunkStore_Insert E chunk (shared r1)) = None"
  shows "insert_requests (E\<lparr>InsertOrAssign := f\<rparr>) (request # rest) r =
           (Return (Status CANCELLED ''Service has been closed''),
            r1\<lparr>shared := snd (ChunkStore_Insert E chunk (shared r1))\<rparr>)"
proof -
  have "insert_chunks E (chunk # rest_chunks) r1 =
          (Return (Status CANCELLED ''Service has been closed''),
           r1\<lparr>shared := snd (ChunkStore_Insert E chunk (shared r1))\<rparr>)"
    using closed by (cases "ChunkStore_Insert E chunk (shared r1)") simp
  with before have "insert_chunks E (req_chunks request) r =
          (Return (Status CANCELLED ''Service has been closed''),
           r1\<lparr>shared := snd (ChunkStore_Insert E chunk (shared r1))\<rparr>)"
    by (simp add: split insert_chunks_append)
  then show ?thesis by (simp add: insert_request_def)
qed


text \<open>
  C3: the retention step keeps the entries whose key is in \<open>keep_chunk_keys\<close> and
  erases all others. When every key to keep is in the map, the check of the sizes
  passes and the keys left are those to keep. In the handler: under that precondition
  on the map at the start of the item's processing the item never ends in the fatal
  check, and whenever the item is processed to the end the keys left are
  \<open>keep_chunk_keys\<close>.
\<close>

theorem retain_keeps_exactly:
  "fset (fmdom (snd (retain keep m))) = fset (fmdom m) \<inter> set keep \<and>
   (\<forall>k. fmlookup (snd (retain keep m)) k = (if k \<in> set keep then fmlookup m k else None)) \<and>
   (set keep \<subseteq> fset (fmdom m) \<longrightarrow>
      fst (retain keep m) = Continue \<and> fset (fmdom (snd (retain keep m))) = set keep \<and>
      fcard (fmdom (snd (retain keep m))) = fcard (fset_of_list keep)) \<and>
   (set (keep_chunk_keys it) \<subseteq> fset (fmdom (pending_chunks r)) \<longrightarrow>
      (\<forall>msg. fst (insert_item E it r) \<noteq> Abort msg)) \<and>
   (fst (insert_item E it r) = Continue \<longrightarrow>
      fset (fmdom (pending_chunks (snd (insert_item E it r)))) = set (keep_chunk_keys it))"
proof -
  have a: "fset (fmdom (snd (retain keep m))) = fset (fmdom m) \<inter> set keep"
    by (auto simp: fmdom_retain fset_of_list.rep_eq)
  have b: "fcard (fmdom (snd (retain keep m))) = fcard (fset_of_list keep)"
    if "set keep \<subseteq> fset (fmdom m)"
  proof -
    from that have "fmdom (snd (retain keep m)) = fset_of_list keep"
      by (auto simp: fmdom_retain fset_of_list.rep_eq)
    then show ?thesis by simp
  qed
  show ?thesis
    using a b retain_Continue_iff [of keep m] insert_item_no_Abort [of it r E]
      insert_item_Continue [of E it r]
    by (auto simp: fmlookup_retain)
qed

lemma retain_code:
  "retain keep m =
     (if set keep \<subseteq> fset (fmdom m) then Continue else Abort ''Kept less chunks than expected.'',
      fmfilter (\<lambda>k. k \<in> set keep) m)"
  using retain_Continue_iff [of keep m] retain_outcome [of keep m]
  by (auto simp: retain_def Let_def fset_of_list.rep_eq)

lemmas insert_simps =
  InsertStreamInternal_def insert_request_def insert_item_def send_confirmation_for_def
  push_or_def retain_code TableByName_def demo_env_def world_of_def chunk_of_def item_of_def
  request_of_def insert_run_of_def Internal_def TableNotFound_def Status_OK_def ToGrpcStatus_def
  Let_def

theorem retain_keeps_exactly_witness:
  "set [1 :: Key] \<subseteq> fset (fmdom (fmupd 3 (chunk_of 3 1) (fmupd 2 (chunk_of 2 1) (fmupd 1 (chunk_of 1 1) fmempty)))) \<and>
   fst (retain [1 :: Key] (fmupd 3 (chunk_of 3 1) (fmupd 2 (chunk_of 2 1) (fmupd 1 (chunk_of 1 1) fmempty)))) = Continue \<and>
   fset (fmdom (snd (retain [1 :: Key] (fmupd 3 (chunk_of 3 1) (fmupd 2 (chunk_of 2 1) (fmupd 1 (chunk_of 1 1) fmempty)))))) = {1} \<and>
   fst (InsertStreamInternal demo_env
          [request_of [chunk_of 1 1, chunk_of 2 1, chunk_of 3 1] 100 [1] [1], request_of [] 101 [2] []]
          (world_of []))
     = Return (Status INTERNAL ''Could not find sequence chunk 2.'')"
  using retain_keeps_exactly [of "[1]" "fmupd 3 (chunk_of 3 1) (fmupd 2 (chunk_of 2 1) (fmupd 1 (chunk_of 1 1) fmempty))"
      "\<lparr>ins_item = item_of 100 [1], send_confirmation = True, keep_chunk_keys = [1]\<rparr>"
      "(insert_run_of (world_of []))\<lparr>pending_chunks := fmupd 3 (chunk_of 3 1) (fmupd 2 (chunk_of 2 1) (fmupd 1 (chunk_of 1 1) fmempty))\<rparr>"
      demo_env]
  by (simp add: insert_simps dec.simps digit_def)

theorem missing_chunk_is_Internal_witness:
  "insert_chunks demo_env (req_chunks (request_of [chunk_of 7 1] 100 [7, 999] [7])) (insert_run_of (world_of []))
     = (Continue, (insert_run_of (world_of []))\<lparr>pending_chunks := fmupd 7 (chunk_of 7 1) fmempty\<rparr>) \<and>
   find (\<lambda>k. fmlookup (fmupd (7 :: Key) (chunk_of 7 1) fmempty) k = None) [7, 999] = Some 999 \<and>
   InsertStreamInternal demo_env [request_of [chunk_of 7 1] 100 [7, 999] [7]] (world_of [])
     = (Return (Status INTERNAL ''Could not find sequence chunk 999.''),
        (insert_run_of (world_of []))\<lparr>pending_chunks := fmupd 7 (chunk_of 7 1) fmempty\<rparr>) \<and>
   inserted (world_of []) = []"
  using missing_chunk_is_Internal [of demo_env "request_of [chunk_of 7 1] 100 [7, 999] [7]"
      "insert_run_of (world_of [])"
      "(insert_run_of (world_of []))\<lparr>pending_chunks := fmupd 7 (chunk_of 7 1) fmempty\<rparr>"
      "\<lparr>ins_item = item_of 100 [7, 999], send_confirmation = True, keep_chunk_keys = [7]\<rparr>"
      999 "InsertOrAssign demo_env" "[]"]
  by (simp add: insert_simps dec.simps digit_def)


theorem closed_store_cancels_stream_witness:
  "req_chunks (request_of [chunk_of 7 1] 100 [7] [7]) = [] @ chunk_of 7 1 # [] \<and>
   fst (ChunkStore_Insert demo_env (chunk_of 7 1)
          \<lparr>closed = True, inserted = [(''t'', \<lparr>item = item_of 99 [5], chunks = [chunk_of 5 1]\<rparr>)], queue = []\<rparr>)
     = None \<and>
   InsertStreamInternal demo_env [request_of [chunk_of 7 1] 100 [7] [7], request_of [] 101 [] []]
       \<lparr>closed = True, inserted = [(''t'', \<lparr>item = item_of 99 [5], chunks = [chunk_of 5 1]\<rparr>)], queue = []\<rparr>
     = (Return (Status CANCELLED ''Service has been closed''),
        insert_run_of \<lparr>closed = True, inserted = [(''t'', \<lparr>item = item_of 99 [5], chunks = [chunk_of 5 1]\<rparr>)], queue = []\<rparr>)"
  using closed_store_cancels_stream [of "request_of [chunk_of 7 1] 100 [7] [7]" "[]" "chunk_of 7 1" "[]"
      demo_env
      "insert_run_of \<lparr>closed = True, inserted = [(''t'', \<lparr>item = item_of 99 [5], chunks = [chunk_of 5 1]\<rparr>)], queue = []\<rparr>"
      "insert_run_of \<lparr>closed = True, inserted = [(''t'', \<lparr>item = item_of 99 [5], chunks = [chunk_of 5 1]\<rparr>)], queue = []\<rparr>"
      "InsertOrAssign demo_env" "[request_of [] 101 [] []]"]
  by (simp add: insert_simps)

subsection \<open>SampleStream: requests\<close>

lemma calls_emit_chunks [simp]: "calls (snd (emit_chunks E s n idx cs entry r)) = calls r"
  by (induction cs arbitrary: idx entry r) (auto simp: Let_def)

lemma calls_emit_sample [simp]: "calls (snd (emit_sample E s r)) = calls r"
  by (simp add: emit_sample_def)

lemma calls_emit_samples [simp]: "calls (snd (emit_samples E ss r)) = calls r"
proof (induction ss arbitrary: r)
  case Nil
  show ?case by simp
next
  case (Cons s ss)
  have "calls (snd (emit_sample E s r)) = calls r" by simp
  then show ?case
    using Cons.IH [of "snd (emit_sample E s r)"]
    by (cases "emit_sample E s r") (auto split: outcome.splits)
qed

lemma calls_sample_batches:
  "\<exists>cs. calls (snd (sample_batches E q tbl d t fuel count r)) = calls r @ cs \<and>
        (\<forall>c \<in> set cs. snd (snd c) = t)"
proof (induction fuel arbitrary: count r)
  case 0
  show ?case by simp
next
  case (Suc fuel)
  let ?r1 = "r\<lparr>polls := polls r + 1\<rparr>"
  let ?m = "max_batch_size E q d count"
  show ?case
  proof (cases "IsCancelled E (polls r) \<or> count = num_samples q")
    case True
    then show ?thesis by auto
  next
    case False
    obtain status samples w where sf: "SampleFlexibleBatch E tbl ?m t (world ?r1) = ((status, samples), w)"
      by (metis surj_pair)
    let ?r2 = "?r1\<lparr>world := w, calls := calls ?r1 @ [(tbl, ?m, t)]\<rparr>"
    show ?thesis
    proof (cases "ok status")
      case no: False
      have "calls (snd (sample_batches E q tbl d t (Suc fuel) count r)) = calls r @ [(tbl, ?m, t)]"
        using False no sf by (auto simp: Let_def)
      then show ?thesis by auto
    next
      case True
      obtain oc r3 where es: "emit_samples E samples ?r2 = (oc, r3)" by (metis surj_pair)
      have "calls (snd (emit_samples E samples ?r2)) = calls ?r2"
        by (rule calls_emit_samples)
      then have c3: "calls r3 = calls r @ [(tbl, ?m, t)]"
        unfolding es by simp
      show ?thesis
      proof (cases "oc = Continue")
        case c: True
        have step: "sample_batches E q tbl d t (Suc fuel) count r =
            sample_batches E q tbl d t fuel (int32_t (count + int (length samples))) r3"
          using False True sf es c by (auto simp: Let_def)
        from Suc.IH [of "int32_t (count + int (length samples))" r3] obtain cs where
          "calls (snd (sample_batches E q tbl d t fuel (int32_t (count + int (length samples))) r3)) = calls r3 @ cs"
          "\<forall>c \<in> set cs. snd (snd c) = t" by blast
        then have "calls (snd (sample_batches E q tbl d t (Suc fuel) count r)) = calls r @ ((tbl, ?m, t) # cs)
            \<and> (\<forall>c \<in> set ((tbl, ?m, t) # cs). snd (snd c) = t)"
          using step c3 by simp
        then show ?thesis by blast
      next
        case nc: False
        have "sample_batches E q tbl d t (Suc fuel) count r = (oc, r3)"
          using False True sf es nc by (cases oc) (auto simp: Let_def)
        then have "calls (snd (sample_batches E q tbl d t (Suc fuel) count r)) = calls r @ [(tbl, ?m, t)]"
          using c3 by simp
        then show ?thesis by auto
      qed
    qed
  qed
qed

lemma calls_serve_request:
  "\<exists>cs. calls (snd (serve_request E t fuel q r)) = calls r @ cs \<and> (\<forall>c \<in> set cs. snd (snd c) = t)"
  using calls_sample_batches [of E q _ _ t fuel 0 r]
  by (auto simp: serve_request_def split: option.splits)

lemma calls_serve_requests:
  "\<exists>cs. calls (snd (serve_requests E t fuel qs r)) = calls r @ cs \<and> (\<forall>c \<in> set cs. snd (snd c) = t)"
proof (induction qs arbitrary: r)
  case Nil
  show ?case by simp
next
  case (Cons q qs)
  obtain oc r1 where sr: "serve_request E t fuel q r = (oc, r1)" by (metis surj_pair)
  from calls_serve_request [of E t fuel q r] sr obtain cs where
    cs: "calls r1 = calls r @ cs" "\<forall>c \<in> set cs. snd (snd c) = t" by auto
  show ?case
  proof (cases "oc = Continue")
    case True
    from Cons.IH [of r1] obtain ds where
      "calls (snd (serve_requests E t fuel qs r1)) = calls r1 @ ds" "\<forall>c \<in> set ds. snd (snd c) = t"
      by blast
    then have "calls (snd (serve_requests E t fuel (q # qs) r)) = calls r @ (cs @ ds)
        \<and> (\<forall>c \<in> set (cs @ ds). snd (snd c) = t)"
      using sr True cs by auto
    then show ?thesis by blast
  next
    case False
    then have "serve_requests E t fuel (q # qs) r = (oc, r1)"
      using sr by (cases oc) auto
    then show ?thesis using cs by auto
  qed
qed

lemma initial_timeout_eq:
  "initial_timeout q =
     (case rate_limiter_timeout q of
        Some t \<Rightarrow> if 0 \<le> milliseconds t then Milliseconds (milliseconds t) else InfiniteDuration
      | None \<Rightarrow> InfiniteDuration)"
  by (auto simp: initial_timeout_def ZeroDuration_def Let_def split: option.splits)

text \<open>
  C8: every \<^verbatim>\<open>SampleFlexibleBatch\<close> call a SampleStream makes carries, as its
  timeout, the \<open>rate_limiter_timeout\<close> of the stream's initial request in
  milliseconds when the field is present and not negative, and the infinite duration
  when the field is absent or negative.
\<close>

theorem rate_limiter_timeout_passed:
  "\<forall>c \<in> set (calls_since r (snd (SampleStreamInternal E fuel (q # rest) r))).
     snd (snd c) =
       (case rate_limiter_timeout q of
          Some t \<Rightarrow> if 0 \<le> milliseconds t then Milliseconds (milliseconds t) else InfiniteDuration
        | None \<Rightarrow> InfiniteDuration)"
  using calls_serve_requests [of E "initial_timeout q" fuel "q # rest" r]
  by (auto simp: SampleStreamInternal_def calls_since_def initial_timeout_eq simp del: serve_requests.simps)

lemma max_batch_size_timeout [simp]:
  "max_batch_size E (q\<lparr>rate_limiter_timeout := v\<rparr>) d count = max_batch_size E q d count"
  by (simp add: max_batch_size_def)

lemma sample_batches_timeout_field [simp]:
  "sample_batches E (q\<lparr>rate_limiter_timeout := v\<rparr>) tbl d t fuel count r =
   sample_batches E q tbl d t fuel count r"
  by (induction fuel arbitrary: count r) (auto simp: Let_def split: prod.splits outcome.splits)

lemma serve_request_timeout_field [simp]:
  "serve_request E t fuel (q\<lparr>rate_limiter_timeout := v\<rparr>) r = serve_request E t fuel q r"
  by (simp add: serve_request_def split: option.splits)

lemma serve_requests_timeout_field:
  "serve_requests E t fuel (map (\<lambda>x. x\<lparr>rate_limiter_timeout := g x\<rparr>) qs) r = serve_requests E t fuel qs r"
  by (induction qs arbitrary: r) (auto split: prod.splits outcome.splits)

text \<open>
  C10: the timeout is computed once, from the initial request. Whatever the
  \<open>rate_limiter_timeout\<close> fields of the later requests of the stream are set to
  (\<open>g\<close> is arbitrary), the handler ends the same way in the same state, and every
  sampling call of the stream, for whichever request, carries the timeout of the
  initial request.
\<close>

theorem later_timeouts_ignored:
  "SampleStreamInternal E fuel (q # map (\<lambda>x. x\<lparr>rate_limiter_timeout := g x\<rparr>) rest) r =
     SampleStreamInternal E fuel (q # rest) r \<and>
   (\<forall>c \<in> set (calls_since r (snd (SampleStreamInternal E fuel (q # rest) r))).
      snd (snd c) = initial_timeout q)"
proof -
  have "serve_requests E (initial_timeout q) fuel (q # map (\<lambda>x. x\<lparr>rate_limiter_timeout := g x\<rparr>) rest) r =
        serve_requests E (initial_timeout q) fuel (q # rest) r"
    by (simp add: serve_requests_timeout_field split: prod.splits outcome.splits)
  moreover have "\<forall>c \<in> set (calls_since r (snd (serve_requests E (initial_timeout q) fuel (q # rest) r))).
      snd (snd c) = initial_timeout q"
    using calls_serve_requests [of E "initial_timeout q" fuel "q # rest" r]
    by (auto simp: calls_since_def simp del: serve_requests.simps)
  ultimately show ?thesis by (simp add: SampleStreamInternal_def del: serve_requests.simps)
qed


lemma int32_t_id: "- (2 ^ 31) \<le> x \<Longrightarrow> x < 2 ^ 31 \<Longrightarrow> int32_t x = x"
  by (simp add: int32_t_def sint_sbintrunc' signed_take_bit_int_eq_self)

lemma max_batch_size_in_range:
  assumes "- (2 ^ 31) \<le> flexible_batch_size q" "flexible_batch_size q < 2 ^ 31"
    and "- (2 ^ 31) \<le> d" "d < 2 ^ 31"
    and "- (2 ^ 31) \<le> num_samples q - count" "num_samples q - count < 2 ^ 31"
  shows "max_batch_size E q d count =
           min (if flexible_batch_size q = kAutoSelectValue E then d else flexible_batch_size q)
               (num_samples q - count)"
  using assms by (simp add: max_batch_size_def int32_t_id)

text \<open>
  C6: the checks of a sample request, in their order. A request with
  \<open>num_samples \<le> 0\<close> ends the stream with InvalidArgument; otherwise a
  \<open>flexible_batch_size \<le> 0\<close> other than the auto-select value ends it with
  InvalidArgument; otherwise an unknown table ends it with NotFound ``Priority table
  <name> was not found''. In each case the state of the run is left as it was,
  whatever \<^verbatim>\<open>SampleFlexibleBatch\<close> would do (\<open>f\<close> is arbitrary): no
  sampling call is made. \<open>r\<close> is the state the earlier requests of the stream left.
\<close>

theorem sample_request_validation:
  "(num_samples q \<le> 0 \<longrightarrow>
      serve_requests (E\<lparr>SampleFlexibleBatch := f\<rparr>) t fuel (q # rest) r =
        (Return (Status INVALID_ARGUMENT (CHR 0x60 # ''num_samples'' @ CHR 0x60 # '' must be > 0.'')), r)) \<and>
   (0 < num_samples q \<and> flexible_batch_size q \<le> 0 \<and> flexible_batch_size q \<noteq> kAutoSelectValue E \<longrightarrow>
      serve_requests (E\<lparr>SampleFlexibleBatch := f\<rparr>) t fuel (q # rest) r =
        (Return (Status INVALID_ARGUMENT
                   (CHR 0x60 # ''flexible_batch_size'' @ CHR 0x60 # '' must be > 0 or '' @
                    dec_int (kAutoSelectValue E) @ '' (for auto tuning).'')), r)) \<and>
   (0 < num_samples q \<and> (0 < flexible_batch_size q \<or> flexible_batch_size q = kAutoSelectValue E) \<and>
    TableByName E (sample_table q) = None \<longrightarrow>
      serve_requests (E\<lparr>SampleFlexibleBatch := f\<rparr>) t fuel (q # rest) r =
        (Return (Status NOT_FOUND (''Priority table '' @ sample_table q @ '' was not found'')), r))"
  by (auto simp: serve_request_def TableNotFound_def TableByName_def)

lemmas sample_simps =
  SampleStreamInternal_def serve_request_def initial_timeout_def ZeroDuration_def
  max_batch_size_def TableByName_def TableNotFound_def demo_sample_def sample_request_def
  calls_since_def Status_OK_def ToGrpcStatus_def Internal_def dec_int_def

theorem sample_request_validation_witness:
  "fst (SampleStreamInternal demo_env 1 [sample_request 0 1 None] (run_of (world_of []))) =
     Return (Status INVALID_ARGUMENT (CHR 0x60 # ''num_samples'' @ CHR 0x60 # '' must be > 0.'')) \<and>
   fst (SampleStreamInternal demo_env 1 [sample_request 1 0 None] (run_of (world_of []))) =
     Return (Status INVALID_ARGUMENT
        (CHR 0x60 # ''flexible_batch_size'' @ CHR 0x60 # '' must be > 0 or -1 (for auto tuning).'')) \<and>
   SampleStreamInternal demo_env 1 [(sample_request 1 1 None)\<lparr>sample_table := ''ghost''\<rparr>] (run_of (world_of [])) =
     (Return (Status NOT_FOUND ''Priority table ghost was not found''), run_of (world_of []))"
  using sample_request_validation [where q = "sample_request 0 1 None" and E = demo_env
          and f = "SampleFlexibleBatch demo_env" and t = InfiniteDuration and fuel = 1
          and rest = "[]" and r = "run_of (world_of [])"]
        sample_request_validation [where q = "sample_request 1 0 None" and E = demo_env
          and f = "SampleFlexibleBatch demo_env" and t = InfiniteDuration and fuel = 1
          and rest = "[]" and r = "run_of (world_of [])"]
        sample_request_validation [where q = "(sample_request 1 1 None)\<lparr>sample_table := ''ghost''\<rparr>"
          and E = demo_env and f = "SampleFlexibleBatch demo_env" and t = InfiniteDuration
          and fuel = 1 and rest = "[]" and r = "run_of (world_of [])"]
  by (simp add: sample_simps demo_env_def dec.simps digit_def)

lemma int32_t_2_31: "int32_t 2147483648 = - 2147483648"
  by (simp add: int32_t_def)

lemma int32_t_max64: "int32_t 9223372036854775807 = - 1"
  by (simp add: int32_t_def)

text \<open>
  C7 at \<open>num_samples = 2\<^sup>3\<^sup>1\<close>, \<open>flexible_batch_size = 5\<close>:
  \<^verbatim>\<open>std::min<int32_t>\<close> converts the 64-bit difference
  \<open>num_samples - count\<close> to 32 bits before it compares, so the first call asks the
  table for \<open>-2\<^sup>3\<^sup>1\<close> items, where the minimum of 5 and the samples still
  to deliver is 5. (The field is wider than \<^verbatim>\<open>int32_t\<close>: with two
  \<^verbatim>\<open>int32_t\<close> arguments \<^verbatim>\<open>std::min\<close> would need no explicit type.)
  The lemma \<open>max_batch_size_in_range\<close> above gives the batch size where the
  difference fits into 32 bits.
\<close>

theorem batch_size_truncated:
  "map (\<lambda>c. fst (snd c))
     (calls (snd (SampleStreamInternal demo_env (Suc 0) [sample_request 2147483648 5 None]
                    (run_of (world_of [sample_of 100 [chunk_of 1 1]])))))
     = [- 2147483648] \<and>
   min 5 (num_samples (sample_request 2147483648 5 None) - 0) = 5"
  by (simp add: sample_simps demo_env_def run_of_def world_of_def int32_t_def)


lemmas run_simps =
  sample_simps demo_env_def run_of_def world_of_def queue3_def emit_sample_def add_chunk_def
  new_entry_def payload_bytes_def kMaxSampleResponseSizeBytes_def sample_of_def chunk_of_def
  item_of_def Let_def int32_t_id

theorem rate_limiter_timeout_passed_witness:
  "map (\<lambda>c. snd (snd c))
     (calls (snd (SampleStreamInternal demo_env (Suc (Suc 0))
        [sample_request 1 1 (Some \<lparr>milliseconds = 250\<rparr>)] (run_of (world_of queue3)))))
     = [Milliseconds 250] \<and>
   map (\<lambda>c. snd (snd c))
     (calls (snd (SampleStreamInternal demo_env (Suc (Suc 0))
        [sample_request 1 1 (Some \<lparr>milliseconds = - 5\<rparr>)] (run_of (world_of queue3)))))
     = [InfiniteDuration] \<and>
   map (\<lambda>c. snd (snd c))
     (calls (snd (SampleStreamInternal demo_env (Suc (Suc 0))
        [sample_request 1 1 None] (run_of (world_of queue3)))))
     = [InfiniteDuration]"
  using rate_limiter_timeout_passed [of "run_of (world_of queue3)" demo_env "Suc (Suc 0)"
          "sample_request 1 1 (Some \<lparr>milliseconds = 250\<rparr>)" "[]"]
  by (simp add: run_simps)

theorem later_timeouts_ignored_witness:
  "fst (SampleStreamInternal demo_env (Suc (Suc (Suc 0)))
        [sample_request 2 1 (Some \<lparr>milliseconds = 500\<rparr>), sample_request 1 1 (Some \<lparr>milliseconds = 7\<rparr>)]
        (run_of (world_of queue3)))
     = Return Status_OK \<and>
   calls (snd (SampleStreamInternal demo_env (Suc (Suc (Suc 0)))
        [sample_request 2 1 (Some \<lparr>milliseconds = 500\<rparr>), sample_request 1 1 (Some \<lparr>milliseconds = 7\<rparr>)]
        (run_of (world_of queue3))))
     = [(''t'', 1, Milliseconds 500), (''t'', 1, Milliseconds 500), (''t'', 1, Milliseconds 500)]"
  using later_timeouts_ignored [of demo_env "Suc (Suc (Suc 0))"
          "sample_request 2 1 (Some \<lparr>milliseconds = 500\<rparr>)" "\<lambda>x. Some \<lparr>milliseconds = 7\<rparr>"
          "[sample_request 1 1 None]" "run_of (world_of queue3)"]
  by (simp add: run_simps)

subsection \<open>SampleStream: the frames of a stream\<close>

lemma item_frames_carry: "carries s (item_frames E s)"
proof -
  let ?n = "length (chunks (ref s))"
  let ?fs = "frames_of E s ?n 0 (chunks (ref s)) new_entry"
  have len: "0 + length (chunks (ref s)) = ?n" by simp
  have frame_chunks: "frame_chunks (frame e) = data e" for e
    by (simp add: frame_def frame_chunks_def)
  have c: "concat (map frame_chunks (map frame ?fs)) = chunks (ref s)"
  proof (cases "chunks (ref s) = []")
    case True
    then show ?thesis by simp
  next
    case False
    from concat_frames_of [OF len False, of E s new_entry] show ?thesis
      by (simp add: o_def frame_chunks new_entry_def)
  qed
  have d: "\<forall>f \<in> set (map frame ?fs). frame_chunks f \<noteq> []"
    by (auto simp: frame_chunks dest: data_frames_of_nonempty)
  have e: "map end_of_sequence (entries (last (map frame ?fs))) = [True]" if "chunks (ref s) \<noteq> []"
    using eos_frames_of [OF len that, of E s new_entry] frames_of_Nil_iff [OF len, of E s new_entry] that
    by (simp add: last_map frame_def)
  have f: "\<forall>f \<in> set (butlast (map frame ?fs)). \<forall>e \<in> set (entries f). \<not> end_of_sequence e"
  proof (cases "chunks (ref s) = []")
    case True
    then show ?thesis by simp
  next
    case False
    from eos_frames_of [OF len False, of E s new_entry] show ?thesis
      by (auto simp: map_butlast [symmetric] frame_def)
  qed
  show ?thesis
    unfolding carries_def item_frames_def using c d e f by simp
qed

lemma writes_emit_chunks_mono: "writes r \<le> writes (snd (emit_chunks E s n idx cs entry r))"
proof (induction cs arbitrary: idx entry r)
  case Nil
  show ?case by simp
next
  case (Cons c cs)
  let ?e = "add_chunk s n idx c entry"
  let ?r = "r\<lparr>written := written r @ [\<lparr>entries = [?e]\<rparr>], writes := writes r + 1\<rparr>"
  from Cons.IH [where idx = "idx + 1" and entry = ?e and r = r]
    Cons.IH [where idx = "idx + 1" and entry = new_entry and r = ?r]
  show ?case by (auto simp: Let_def)
qed

lemma emit_chunks_accepted:
  "(\<And>k. writes r \<le> k \<Longrightarrow> k < writes (snd (emit_chunks E s n idx cs entry r)) \<Longrightarrow> Write E k) \<Longrightarrow>
   emit_chunks E s n idx cs entry r =
     (Continue, r\<lparr>written := written r @ map frame (frames_of E s n idx cs entry),
                   writes := writes r + length (frames_of E s n idx cs entry)\<rparr>)"
proof (induction cs arbitrary: idx entry r)
  case Nil
  show ?case by simp
next
  case (Cons c cs)
  let ?e = "add_chunk s n idx c entry"
  show ?case
  proof (cases "idx < n - 1 \<and> ByteSizeLong E ?e < kMaxSampleResponseSizeBytes")
    case True
    then have eq: "emit_chunks E s n idx (c # cs) entry r = emit_chunks E s n (idx + 1) cs ?e r"
      by (simp add: Let_def)
    have "emit_chunks E s n (idx + 1) cs ?e r =
        (Continue, r\<lparr>written := written r @ map frame (frames_of E s n (idx + 1) cs ?e),
                      writes := writes r + length (frames_of E s n (idx + 1) cs ?e)\<rparr>)"
      by (rule Cons.IH) (use Cons.prems eq in auto)
    with True eq show ?thesis by (simp add: Let_def)
  next
    case False
    let ?r = "r\<lparr>written := written r @ [\<lparr>entries = [?e]\<rparr>], writes := writes r + 1\<rparr>"
    have w: "Write E (writes r)"
    proof (rule ccontr)
      assume no: "\<not> Write E (writes r)"
      with False have "writes (snd (emit_chunks E s n idx (c # cs) entry r)) = writes r + 1"
        by (auto simp: Let_def)
      with Cons.prems [of "writes r"] no show False by simp
    qed
    with False have eq: "emit_chunks E s n idx (c # cs) entry r = emit_chunks E s n (idx + 1) cs new_entry ?r"
      by (auto simp: Let_def)
    have "emit_chunks E s n (idx + 1) cs new_entry ?r =
        (Continue, ?r\<lparr>written := written ?r @ map frame (frames_of E s n (idx + 1) cs new_entry),
                       writes := writes ?r + length (frames_of E s n (idx + 1) cs new_entry)\<rparr>)"
      by (rule Cons.IH) (use Cons.prems eq in auto)
    with False eq show ?thesis by (auto simp: Let_def frame_def)
  qed
qed

lemma emit_sample_accepted:
  assumes "\<And>k. writes r \<le> k \<Longrightarrow> k < writes (snd (emit_sample E s r)) \<Longrightarrow> Write E k"
  shows "emit_sample E s r =
     (Continue, r\<lparr>written := written r @ item_frames E s,
                   writes := writes r + length (item_frames E s)\<rparr>)"
proof -
  have "emit_chunks E s (length (chunks (ref s))) 0 (chunks (ref s)) new_entry r =
     (Continue, r\<lparr>written := written r @ map frame (frames_of E s (length (chunks (ref s))) 0 (chunks (ref s)) new_entry),
                   writes := writes r + length (frames_of E s (length (chunks (ref s))) 0 (chunks (ref s)) new_entry)\<rparr>)"
    by (rule emit_chunks_accepted) (use assms in \<open>auto simp: emit_sample_def\<close>)
  then show ?thesis by (simp add: emit_sample_def item_frames_def)
qed


lemma writes_emit_samples_mono: "writes r \<le> writes (snd (emit_samples E ss r))"
proof (induction ss arbitrary: r)
  case Nil
  show ?case by simp
next
  case (Cons s ss)
  obtain oc r1 where e: "emit_sample E s r = (oc, r1)" by (metis surj_pair)
  have "writes r \<le> writes r1"
    using writes_emit_chunks_mono [of r E s "length (chunks (ref s))" 0 "chunks (ref s)" new_entry] e
    by (simp add: emit_sample_def)
  with Cons.IH [of r1] e show ?case by (cases oc) auto
qed

lemma emit_samples_accepted:
  assumes "\<And>k. writes r \<le> k \<Longrightarrow> k < writes (snd (emit_samples E ss r)) \<Longrightarrow> Write E k"
  shows "emit_samples E ss r =
     (Continue, r\<lparr>written := written r @ concat (map (item_frames E) ss),
                   writes := writes r + length (concat (map (item_frames E) ss))\<rparr>)"
  using assms
proof (induction ss arbitrary: r)
  case Nil
  show ?case by simp
next
  case (Cons s ss)
  obtain oc r1 where e: "emit_sample E s r = (oc, r1)" by (metis surj_pair)
  have le: "writes r1 \<le> writes (snd (emit_samples E (s # ss) r))"
    using e writes_emit_samples_mono [of r1 E ss] by (cases oc) auto
  have "emit_sample E s r =
     (Continue, r\<lparr>written := written r @ item_frames E s,
                   writes := writes r + length (item_frames E s)\<rparr>)"
  proof (rule emit_sample_accepted)
    fix k assume "writes r \<le> k" "k < writes (snd (emit_sample E s r))"
    with le e show "Write E k" using Cons.prems [of k] by simp
  qed
  with e have oc: "oc = Continue"
    and r1: "r1 = r\<lparr>written := written r @ item_frames E s,
                     writes := writes r + length (item_frames E s)\<rparr>"
    by simp_all
  have rest: "emit_samples E (s # ss) r = emit_samples E ss r1"
    using e oc by simp
  have "emit_samples E ss r1 =
     (Continue, r1\<lparr>written := written r1 @ concat (map (item_frames E) ss),
                    writes := writes r1 + length (concat (map (item_frames E) ss))\<rparr>)"
  proof (rule Cons.IH)
    fix k assume "writes r1 \<le> k" "k < writes (snd (emit_samples E ss r1))"
    then show "Write E k" using Cons.prems [of k] rest r1 by simp
  qed
  with rest r1 show ?case by simp
qed

lemma writes_sample_batches_mono:
  "writes r \<le> writes (snd (sample_batches E q tbl d t fuel count r))"
proof (induction fuel arbitrary: count r)
  case 0
  show ?case by simp
next
  case (Suc fuel)
  let ?r1 = "r\<lparr>polls := polls r + 1\<rparr>"
  let ?m = "max_batch_size E q d count"
  obtain status samples w where sf: "SampleFlexibleBatch E tbl ?m t (world ?r1) = ((status, samples), w)"
    by (metis surj_pair)
  let ?r2 = "?r1\<lparr>world := w, calls := calls ?r1 @ [(tbl, ?m, t)]\<rparr>"
  obtain oc r3 where es: "emit_samples E samples ?r2 = (oc, r3)" by (metis surj_pair)
  have "writes r \<le> writes r3"
    using writes_emit_samples_mono [of ?r2 E samples] es by simp
  with Suc.IH [where count = "int32_t (count + int (length samples))" and r = r3] sf es
  show ?case by (cases oc) (auto simp: Let_def)
qed

lemma writes_serve_request_mono: "writes r \<le> writes (snd (serve_request E t fuel q r))"
  using writes_sample_batches_mono [of r E q _ _ t fuel 0]
  by (auto simp: serve_request_def split: option.splits)

lemma writes_serve_requests_mono: "writes r \<le> writes (snd (serve_requests E t fuel qs r))"
proof (induction qs arbitrary: r)
  case Nil
  show ?case by simp
next
  case (Cons q qs)
  obtain oc r1 where sr: "serve_request E t fuel q r = (oc, r1)" by (metis surj_pair)
  with writes_serve_request_mono [of r E t fuel q] have "writes r \<le> writes r1" by simp
  with Cons.IH [of r1] sr show ?case by (cases oc) auto
qed

lemma sample_batches_delivers:
  assumes dl: "\<And>tbl m t w. delivered (snd (SampleFlexibleBatch E tbl m t w)) =
                  delivered w @ (if ok (fst (fst (SampleFlexibleBatch E tbl m t w)))
                           then snd (fst (SampleFlexibleBatch E tbl m t w)) else [])"
    and acc: "\<And>k. writes r \<le> k \<Longrightarrow> k < writes (snd (sample_batches E q tbl d t fuel count r)) \<Longrightarrow> Write E k"
  shows "\<exists>items. delivered (world (snd (sample_batches E q tbl d t fuel count r))) = delivered (world r) @ items \<and>
           written (snd (sample_batches E q tbl d t fuel count r)) =
             written r @ concat (map (item_frames E) items)"
  using acc
proof (induction fuel arbitrary: count r)
  case 0
  show ?case by simp
next
  case (Suc fuel)
  let ?r1 = "r\<lparr>polls := polls r + 1\<rparr>"
  let ?m = "max_batch_size E q d count"
  let ?res = "sample_batches E q tbl d t (Suc fuel) count r"
  show ?case
  proof (cases "IsCancelled E (polls r) \<or> count = num_samples q")
    case True
    then show ?thesis by auto
  next
    case False
    obtain status samples w where sf: "SampleFlexibleBatch E tbl ?m t (world ?r1) = ((status, samples), w)"
      by (metis surj_pair)
    have lw: "delivered w = delivered (world r) @ (if ok status then samples else [])"
      using dl [of tbl ?m t "world ?r1"] sf by simp
    let ?r2 = "?r1\<lparr>world := w, calls := calls ?r1 @ [(tbl, ?m, t)]\<rparr>"
    show ?thesis
    proof (cases "ok status")
      case no: False
      have "?res = (Return (ToGrpcStatus status), ?r2)"
        using False no sf by (auto simp: Let_def)
      then show ?thesis using lw no by simp
    next
      case True
      obtain oc r3 where es: "emit_samples E samples ?r2 = (oc, r3)" by (metis surj_pair)
      have res: "?res = (case oc of Continue \<Rightarrow>
                   sample_batches E q tbl d t fuel (int32_t (count + int (length samples))) r3
                 | _ \<Rightarrow> (oc, r3))"
        using False True sf es by (cases oc) (auto simp: Let_def)
      have le: "writes r3 \<le> writes (snd ?res)"
        using res writes_sample_batches_mono [of r3 E q tbl d t fuel "int32_t (count + int (length samples))"]
        by (cases oc) auto
      have "emit_samples E samples ?r2 =
          (Continue, ?r2\<lparr>written := written ?r2 @ concat (map (item_frames E) samples),
                          writes := writes ?r2 + length (concat (map (item_frames E) samples))\<rparr>)"
      proof (rule emit_samples_accepted)
        fix k assume "writes ?r2 \<le> k" "k < writes (snd (emit_samples E samples ?r2))"
        with le es show "Write E k" using Suc.prems [of k] by simp
      qed
      with es have oc: "oc = Continue"
        and r3: "r3 = ?r2\<lparr>written := written ?r2 @ concat (map (item_frames E) samples),
                           writes := writes ?r2 + length (concat (map (item_frames E) samples))\<rparr>"
        by simp_all
      have step: "?res = sample_batches E q tbl d t fuel (int32_t (count + int (length samples))) r3"
        using res oc by simp
      have "\<exists>items. delivered (world (snd (sample_batches E q tbl d t fuel (int32_t (count + int (length samples))) r3))) =
                 delivered (world r3) @ items \<and>
               written (snd (sample_batches E q tbl d t fuel (int32_t (count + int (length samples))) r3)) =
                 written r3 @ concat (map (item_frames E) items)"
      proof (rule Suc.IH)
        fix k assume "writes r3 \<le> k"
          "k < writes (snd (sample_batches E q tbl d t fuel (int32_t (count + int (length samples))) r3))"
        then show "Write E k" using Suc.prems [of k] step r3 by simp
      qed
      then obtain items where
        "delivered (world (snd ?res)) = delivered (world r3) @ items"
        "written (snd ?res) = written r3 @ concat (map (item_frames E) items)"
        using step by auto
      then have "delivered (world (snd ?res)) = delivered (world r) @ (samples @ items) \<and>
                 written (snd ?res) = written r @ concat (map (item_frames E) (samples @ items))"
        using r3 lw True by simp
      then show ?thesis by blast
    qed
  qed
qed


lemma serve_request_delivers:
  assumes dl: "\<And>tbl m t w. delivered (snd (SampleFlexibleBatch E tbl m t w)) =
                  delivered w @ (if ok (fst (fst (SampleFlexibleBatch E tbl m t w)))
                           then snd (fst (SampleFlexibleBatch E tbl m t w)) else [])"
    and acc: "\<And>k. writes r \<le> k \<Longrightarrow> k < writes (snd (serve_request E t fuel q r)) \<Longrightarrow> Write E k"
  shows "\<exists>items. delivered (world (snd (serve_request E t fuel q r))) = delivered (world r) @ items \<and>
           written (snd (serve_request E t fuel q r)) = written r @ concat (map (item_frames E) items)"
proof (cases "num_samples q \<le> 0 \<or>
              (flexible_batch_size q \<le> 0 \<and> flexible_batch_size q \<noteq> kAutoSelectValue E) \<or>
              TableByName E (sample_table q) = None")
  case True
  then have "snd (serve_request E t fuel q r) = r"
    by (auto simp: serve_request_def)
  then show ?thesis by simp
next
  case False
  then obtain tbl where "TableByName E (sample_table q) = Some tbl" by auto
  with False have eq: "serve_request E t fuel q r =
      sample_batches E q tbl (DefaultFlexibleBatchSize E tbl) t fuel 0 r"
    by (auto simp: serve_request_def)
  show ?thesis
    unfolding eq by (rule sample_batches_delivers [OF dl]) (use acc eq in auto)
qed

lemma serve_requests_delivers:
  assumes dl: "\<And>tbl m t w. delivered (snd (SampleFlexibleBatch E tbl m t w)) =
                  delivered w @ (if ok (fst (fst (SampleFlexibleBatch E tbl m t w)))
                           then snd (fst (SampleFlexibleBatch E tbl m t w)) else [])"
    and acc: "\<And>k. writes r \<le> k \<Longrightarrow> k < writes (snd (serve_requests E t fuel qs r)) \<Longrightarrow> Write E k"
  shows "\<exists>items. delivered (world (snd (serve_requests E t fuel qs r))) = delivered (world r) @ items \<and>
           written (snd (serve_requests E t fuel qs r)) = written r @ concat (map (item_frames E) items)"
  using acc
proof (induction qs arbitrary: r)
  case Nil
  show ?case by simp
next
  case (Cons q qs)
  let ?res = "serve_requests E t fuel (q # qs) r"
  obtain oc r1 where sr: "serve_request E t fuel q r = (oc, r1)" by (metis surj_pair)
  have res: "?res = (case oc of Continue \<Rightarrow> serve_requests E t fuel qs r1 | _ \<Rightarrow> (oc, r1))"
    using sr by (cases oc) auto
  have le0: "writes r \<le> writes r1"
    using writes_serve_request_mono [of r E t fuel q] sr by simp
  have le: "writes r1 \<le> writes (snd ?res)"
    using res writes_serve_requests_mono [of r1 E t fuel qs] by (cases oc) auto
  have "\<exists>items. delivered (world (snd (serve_request E t fuel q r))) = delivered (world r) @ items \<and>
           written (snd (serve_request E t fuel q r)) = written r @ concat (map (item_frames E) items)"
  proof (rule serve_request_delivers [OF dl])
    fix k assume "writes r \<le> k" "k < writes (snd (serve_request E t fuel q r))"
    with le sr show "Write E k" using Cons.prems [of k] by simp
  qed
  then obtain items where first:
    "delivered (world r1) = delivered (world r) @ items"
    "written r1 = written r @ concat (map (item_frames E) items)"
    using sr by auto
  show ?case
  proof (cases "oc = Continue")
    case True
    then have step: "?res = serve_requests E t fuel qs r1" using res by simp
    have "\<exists>items. delivered (world (snd (serve_requests E t fuel qs r1))) = delivered (world r1) @ items \<and>
           written (snd (serve_requests E t fuel qs r1)) = written r1 @ concat (map (item_frames E) items)"
    proof (rule Cons.IH)
      fix k assume "writes r1 \<le> k" "k < writes (snd (serve_requests E t fuel qs r1))"
      with le0 show "Write E k" using Cons.prems [of k] step by simp
    qed
    then obtain more where
      "delivered (world (snd ?res)) = delivered (world r1) @ more"
      "written (snd ?res) = written r1 @ concat (map (item_frames E) more)"
      using step by auto
    with first have "delivered (world (snd ?res)) = delivered (world r) @ (items @ more) \<and>
        written (snd ?res) = written r @ concat (map (item_frames E) (items @ more))"
      by simp
    then show ?thesis by blast
  next
    case False
    then have "?res = (oc, r1)" using res by (cases oc) auto
    with first show ?thesis by auto
  qed
qed

text \<open>
  C2: let the world keep a record \<open>delivered\<close> of the items the tables hand out
  (each successful \<^verbatim>\<open>SampleFlexibleBatch\<close> call appends the items it returns),
  and let the transport accept every write that the run of the handler makes. Then the
  responses the handler wrote are, in the order the items were delivered, one group of
  frames for every item delivered during the run, and the group of an item carries it:
  the chunks of its frames, read frame after frame, are the item's chunk list (each
  chunk once, in trajectory order), no frame is empty, the last frame (which therefore
  holds the last chunk) has \<open>end_of_sequence\<close> set and no frame before it has.
\<close>

theorem SampleStream_writes_every_item:
  assumes dl: "\<And>tbl m t w. delivered (snd (SampleFlexibleBatch E tbl m t w)) =
                  delivered w @ (if ok (fst (fst (SampleFlexibleBatch E tbl m t w)))
                           then snd (fst (SampleFlexibleBatch E tbl m t w)) else [])"
    and acc: "\<And>k. writes r \<le> k \<Longrightarrow> k < writes (snd (SampleStreamInternal E fuel requests r)) \<Longrightarrow> Write E k"
  shows "\<exists>items fss.
           delivered (world (snd (SampleStreamInternal E fuel requests r))) = delivered (world r) @ items \<and>
           written (snd (SampleStreamInternal E fuel requests r)) = written r @ concat fss \<and>
           list_all2 carries items fss"
proof -
  have "\<exists>items. delivered (world (snd (SampleStreamInternal E fuel requests r))) = delivered (world r) @ items \<and>
           written (snd (SampleStreamInternal E fuel requests r)) = written r @ concat (map (item_frames E) items)"
  proof (cases requests)
    case Nil
    then show ?thesis by (simp add: SampleStreamInternal_def)
  next
    case (Cons q qs)
    then have eq: "SampleStreamInternal E fuel requests r =
        serve_requests E (initial_timeout q) fuel (q # qs) r"
      by (simp add: SampleStreamInternal_def)
    show ?thesis
      unfolding eq by (rule serve_requests_delivers [OF dl]) (use acc eq in auto)
  qed
  then obtain items where items:
    "delivered (world (snd (SampleStreamInternal E fuel requests r))) = delivered (world r) @ items"
    "written (snd (SampleStreamInternal E fuel requests r)) = written r @ concat (map (item_frames E) items)"
    by blast
  have "list_all2 carries items (map (item_frames E) items)"
    by (simp add: list_all2_map2 list_all2_same item_frames_carry)
  with items show ?thesis by blast
qed


theorem SampleStream_writes_every_item_witness:
  "(\<forall>tbl m t w. snd (snd (SampleFlexibleBatch (logging demo_env) tbl m t w)) =
        snd w @ (if ok (fst (fst (SampleFlexibleBatch (logging demo_env) tbl m t w)))
                 then snd (fst (SampleFlexibleBatch (logging demo_env) tbl m t w)) else [])) \<and>
   (\<forall>k. Write (logging demo_env) k) \<and>
   fst (SampleStreamInternal (logging demo_env) (Suc (Suc (Suc 0))) [sample_request 2 1 None]
          (logged_run_of (world_of queue2))) = Return Status_OK \<and>
   snd (world (snd (SampleStreamInternal (logging demo_env) (Suc (Suc (Suc 0))) [sample_request 2 1 None]
          (logged_run_of (world_of queue2))))) = queue2 \<and>
   map frame_chunks
     (written (snd (SampleStreamInternal (logging demo_env) (Suc (Suc (Suc 0))) [sample_request 2 1 None]
          (logged_run_of (world_of queue2)))))
     = [[chunk_of 1 (30 * MiB), chunk_of 2 (20 * MiB)], [chunk_of 3 MiB], [chunk_of 4 1]] \<and>
   map (\<lambda>f. map end_of_sequence (entries f))
     (written (snd (SampleStreamInternal (logging demo_env) (Suc (Suc (Suc 0))) [sample_request 2 1 None]
          (logged_run_of (world_of queue2)))))
     = [[False], [True], [True]]"
proof -
  have dl: "\<And>tbl m t w. snd (snd (SampleFlexibleBatch (logging demo_env) tbl m t w)) =
        snd w @ (if ok (fst (fst (SampleFlexibleBatch (logging demo_env) tbl m t w)))
                 then snd (fst (SampleFlexibleBatch (logging demo_env) tbl m t w)) else [])"
    by (simp add: logging_def)
  have acc: "\<And>k. Write (logging demo_env) k"
    by (simp add: logging_def demo_env_def)
  have run: "\<exists>items fss.
      snd (world (snd (SampleStreamInternal (logging demo_env) (Suc (Suc (Suc 0))) [sample_request 2 1 None]
          (logged_run_of (world_of queue2))))) = snd (world (logged_run_of (world_of queue2))) @ items \<and>
      written (snd (SampleStreamInternal (logging demo_env) (Suc (Suc (Suc 0))) [sample_request 2 1 None]
          (logged_run_of (world_of queue2)))) = written (logged_run_of (world_of queue2)) @ concat fss \<and>
      list_all2 carries items fss"
    by (rule SampleStream_writes_every_item [where delivered = snd, OF dl acc])
  have ev: "SampleStreamInternal (logging demo_env) (Suc (Suc (Suc 0))) [sample_request 2 1 None]
          (logged_run_of (world_of queue2)) =
      (Return Status_OK,
       \<lparr>world = (world_of [], queue2),
        written = item_frames demo_env (queue2 ! 0) @ item_frames demo_env (queue2 ! 1),
        writes = 3, polls = 3,
        calls = [(''t'', 1, InfiniteDuration), (''t'', 1, InfiniteDuration)]\<rparr>)"
    by (simp add: run_simps logging_def logged_run_of_def queue2_def MiB_def item_frames_def frame_def)
  show ?thesis
    using run dl acc
    by (simp add: ev) (simp add: queue2_def item_frames_def frame_def frame_chunks_def run_simps MiB_def)
qed

subsection \<open>InitializeConnection: the declined handshake\<close>

text \<open>
  C9: for a peer that is neither localhost nor in-process the handler returns OK and
  leaves the run as it was (nothing is handed to the transport). For a local peer whose
  first request carries a pid other than the server's, the handler hands one response
  with \<open>address = 0\<close> to the transport and returns OK, whatever the transport
  answers; no table holder is allocated.
\<close>

theorem InitializeConnection_declines:
  "(\<not> IsLocalhostOrInProcess E peer \<longrightarrow>
      InitializeConnection E peer ptr requests r = (Status_OK, r)) \<and>
   (IsLocalhostOrInProcess E peer \<and> pid q \<noteq> getpid E \<longrightarrow>
      InitializeConnection E peer ptr (q # rest) r =
        (Status_OK, r\<lparr>handed := handed r @ [(\<lparr>address = 0\<rparr>, Write E (length (handed r)))]\<rparr>) \<and>
      allocated (snd (InitializeConnection E peer ptr (q # rest) r)) = allocated r)"
  by (simp add: InitializeConnection_def conn_write_def Let_def)

theorem InitializeConnection_declines_witness:
  "InitializeConnection demo_env ''10.0.0.7'' 4096
       [\<lparr>pid = 4242, table_name = ''t'', ownership_transferred = False\<rparr>]
       \<lparr>handed = [], allocated = 0, deleted = 0\<rparr>
     = (Status_OK, \<lparr>handed = [], allocated = 0, deleted = 0\<rparr>) \<and>
   InitializeConnection demo_env ''localhost'' 4096
       [\<lparr>pid = 17, table_name = ''t'', ownership_transferred = False\<rparr>]
       \<lparr>handed = [], allocated = 0, deleted = 0\<rparr>
     = (Status_OK, \<lparr>handed = [(\<lparr>address = 0\<rparr>, True)], allocated = 0, deleted = 0\<rparr>) \<and>
   InitializeConnection demo_env ''localhost'' 4096
       [\<lparr>pid = 4242, table_name = ''t'', ownership_transferred = False\<rparr>,
        \<lparr>pid = 4242, table_name = ''t'', ownership_transferred = True\<rparr>]
       \<lparr>handed = [], allocated = 0, deleted = 0\<rparr>
     = (Status_OK, \<lparr>handed = [(\<lparr>address = 4096\<rparr>, True)], allocated = 1, deleted = 1\<rparr>)"
  using InitializeConnection_declines [of demo_env "''10.0.0.7''" 4096
          "[\<lparr>pid = 4242, table_name = ''t'', ownership_transferred = False\<rparr>]"
          "\<lparr>handed = [], allocated = 0, deleted = 0\<rparr>"
          "\<lparr>pid = 17, table_name = ''t'', ownership_transferred = False\<rparr>" "[]"]
        InitializeConnection_declines [of demo_env "''localhost''" 4096
          "[\<lparr>pid = 17, table_name = ''t'', ownership_transferred = False\<rparr>]"
          "\<lparr>handed = [], allocated = 0, deleted = 0\<rparr>"
          "\<lparr>pid = 17, table_name = ''t'', ownership_transferred = False\<rparr>" "[]"]
  by (simp add: InitializeConnection_def conn_write_def demo_env_def Status_OK_def Let_def)

subsection \<open>SampleStream: the sampling loop returns\<close>

text \<open>
  Fuel only cuts a run short: a run that ends within its fuel ends the same way with
  more. And the loop ends within \<open>num_samples - count + 1\<close> iterations when the
  table answers every call either with an error or with at least one and at most the
  requested number of items, the batch size is positive and all numbers fit into 32
  bits.
\<close>

lemma emit_chunks_outcome:
  "fst (emit_chunks E s n idx cs entry r) = Continue \<or>
   fst (emit_chunks E s n idx cs entry r) = Return (Internal ''Failed to write to Sample stream.'')"
  by (induction cs arbitrary: idx entry r) (auto simp: Let_def)

lemma emit_samples_outcome:
  "fst (emit_samples E ss r) = Continue \<or>
   fst (emit_samples E ss r) = Return (Internal ''Failed to write to Sample stream.'')"
proof (induction ss arbitrary: r)
  case Nil
  show ?case by simp
next
  case (Cons s ss)
  obtain oc r1 where e: "emit_sample E s r = (oc, r1)" by (metis surj_pair)
  with emit_chunks_outcome [of E s "length (chunks (ref s))" 0 "chunks (ref s)" new_entry r]
  have "oc = Continue \<or> oc = Return (Internal ''Failed to write to Sample stream.'')"
    by (simp add: emit_sample_def)
  then show ?case using e Cons.IH [of r1] by auto
qed

lemma sample_batches_more_fuel:
  "fst (sample_batches E q tbl d t n count r) \<noteq> OutOfFuel \<Longrightarrow>
   sample_batches E q tbl d t (n + k) count r = sample_batches E q tbl d t n count r"
proof (induction n arbitrary: count r)
  case 0
  then show ?case by simp
next
  case (Suc n)
  let ?r1 = "r\<lparr>polls := polls r + 1\<rparr>"
  let ?m = "max_batch_size E q d count"
  show ?case
  proof (cases "IsCancelled E (polls r) \<or> count = num_samples q")
    case True
    then show ?thesis by auto
  next
    case False
    obtain status samples w where sf: "SampleFlexibleBatch E tbl ?m t (world ?r1) = ((status, samples), w)"
      by (metis surj_pair)
    let ?r2 = "?r1\<lparr>world := w, calls := calls ?r1 @ [(tbl, ?m, t)]\<rparr>"
    obtain oc r3 where es: "emit_samples E samples ?r2 = (oc, r3)" by (metis surj_pair)
    show ?thesis
    proof (cases "ok status \<and> oc = Continue")
      case True
      then have a: "sample_batches E q tbl d t (Suc n) count r =
            sample_batches E q tbl d t n (int32_t (count + int (length samples))) r3"
        and b: "sample_batches E q tbl d t (Suc n + k) count r =
            sample_batches E q tbl d t (n + k) (int32_t (count + int (length samples))) r3"
        using False sf es by (auto simp: Let_def)
      from Suc.prems a have "fst (sample_batches E q tbl d t n (int32_t (count + int (length samples))) r3) \<noteq> OutOfFuel"
        by simp
      from Suc.IH [OF this] a b show ?thesis by simp
    next
      case no: False
      then show ?thesis
        using False sf es by (cases oc) (auto simp: Let_def)
    qed
  qed
qed


lemma sample_batches_returns:
  assumes wb: "\<And>m w. 1 \<le> m \<Longrightarrow> ok (fst (fst (SampleFlexibleBatch E tbl m t w))) \<Longrightarrow>
                 1 \<le> length (snd (fst (SampleFlexibleBatch E tbl m t w))) \<and>
                 int (length (snd (fst (SampleFlexibleBatch E tbl m t w)))) \<le> m"
    and eff: "1 \<le> (if flexible_batch_size q = kAutoSelectValue E then d else flexible_batch_size q)"
             "(if flexible_batch_size q = kAutoSelectValue E then d else flexible_batch_size q) < 2 ^ 31"
    and n: "num_samples q < 2 ^ 31"
    and count: "0 \<le> count" "count \<le> num_samples q"
  shows "fst (sample_batches E q tbl d t (Suc (nat (num_samples q - count))) count r) \<noteq> OutOfFuel"
  using count
proof (induction "nat (num_samples q - count)" arbitrary: count r rule: less_induct)
  case less
  let ?k = "nat (num_samples q - count)"
  let ?r1 = "r\<lparr>polls := polls r + 1\<rparr>"
  let ?m = "max_batch_size E q d count"
  show ?case
  proof (cases "IsCancelled E (polls r) \<or> count = num_samples q")
    case True
    then show ?thesis by auto
  next
    case False
    then have lt: "count < num_samples q" using less.prems by simp
    have m: "?m = min (if flexible_batch_size q = kAutoSelectValue E then d else flexible_batch_size q)
                      (num_samples q - count)"
      using eff n less.prems lt by (simp add: max_batch_size_def int32_t_id)
    then have m1: "1 \<le> ?m" "?m \<le> num_samples q - count" using eff lt by auto
    obtain status samples w where sf: "SampleFlexibleBatch E tbl ?m t (world ?r1) = ((status, samples), w)"
      by (metis surj_pair)
    let ?r2 = "?r1\<lparr>world := w, calls := calls ?r1 @ [(tbl, ?m, t)]\<rparr>"
    obtain oc r3 where es: "emit_samples E samples ?r2 = (oc, r3)" by (metis surj_pair)
    show ?thesis
    proof (cases "ok status \<and> oc = Continue")
      case True
      with wb [OF m1(1), of "world ?r1"] sf have len: "1 \<le> length samples" "int (length samples) \<le> ?m"
        by auto
      let ?c = "count + int (length samples)"
      have c: "0 \<le> ?c" "?c \<le> num_samples q" using less.prems len m1 by auto
      then have c32: "int32_t ?c = ?c" using n by (simp add: int32_t_id)
      have dec: "nat (num_samples q - ?c) < ?k" using len lt by auto
      have step: "sample_batches E q tbl d t (Suc ?k) count r = sample_batches E q tbl d t ?k ?c r3"
        using False True sf es c32 by (auto simp: Let_def)
      have "fst (sample_batches E q tbl d t (Suc (nat (num_samples q - ?c))) ?c r3) \<noteq> OutOfFuel"
        by (rule less.hyps [OF dec c])
      moreover have "?k = Suc (nat (num_samples q - ?c)) + (?k - Suc (nat (num_samples q - ?c)))"
        using dec by arith
      ultimately have "fst (sample_batches E q tbl d t ?k ?c r3) \<noteq> OutOfFuel"
        using sample_batches_more_fuel [of E q tbl d t "Suc (nat (num_samples q - ?c))" ?c r3
                "?k - Suc (nat (num_samples q - ?c))"]
        by simp
      with step show ?thesis by simp
    next
      case no: False
      have "fst (sample_batches E q tbl d t (Suc ?k) count r) = Return (ToGrpcStatus status)
            \<or> fst (sample_batches E q tbl d t (Suc ?k) count r) = oc \<and> oc \<noteq> Continue"
        using False no sf es by (cases oc) (auto simp: Let_def)
      moreover have "oc \<noteq> OutOfFuel"
        using emit_samples_outcome [of E samples ?r2] es by auto
      ultimately show ?thesis by auto
    qed
  qed
qed

end
